theory Spec2Isabelle
  imports Complex_Main
begin

section \<open>Data model\<close>

text \<open>
  The program is a character n-gram generator. A \<open>modelData\<close> is the C++
  \<open>unordered_map<string, vector<double>>\<close>: a finite map from context keys to weight
  vectors. The \<open>double\<close> weights are idealised as real numbers (every weight that
  occurs in the examples below is a small integer, which binary64 represents exactly).
  A \<open>char\<close> is a byte; \<open>std::sort\<close> on \<open>vector<char>\<close> compares the signed
  value of the byte, which \<open>schar\<close> gives. An \<open>int\<close> is a mathematical integer: the
  order and the observation counter are taken to stay below \<open>2^31\<close>; where an
  \<open>int\<close> meets a \<open>size_t\<close> the conversion is written out (\<open>to_size_t\<close>,
  \<open>size_t_sub\<close>, \<open>size_t_to_int\<close>). A thrown exception, or an unchecked access
  outside a vector, is a result \<open>Inl e\<close>.
\<close>

type_synonym modelData = "string \<rightharpoonup> real list"

record ExportedModel =
  alphabet :: "char list"
  models :: "modelData list"

record Model =
  m_dPrior :: real
  m_order :: int
  m_alphabet :: "char list"
  m_models :: "modelData list"

datatype error =
    OutOfRange    \<comment> \<open>\<open>std::out_of_range\<close> thrown by \<open>string::substr\<close>\<close>
  | LengthError   \<comment> \<open>\<open>std::length_error\<close> thrown for a negative size converted to \<open>size_t\<close>\<close>
  | IndexUB       \<comment> \<open>unchecked \<open>vector::operator[]\<close> outside the vector\<close>

definition boundary :: char where
  "boundary = CHR ''#''"

definition schar :: "char \<Rightarrow> int" where
  "schar c = (if (of_char c :: int) < 128 then of_char c else of_char c - 256)"

definition to_size_t :: "int \<Rightarrow> nat" where
  \<comment> \<open>conversion of an \<open>int\<close> to the 64-bit \<open>size_t\<close>\<close>
  "to_size_t x = nat (x mod 2 ^ 64)"

definition size_t_sub :: "nat \<Rightarrow> nat \<Rightarrow> nat" where
  \<comment> \<open>\<open>a - b\<close> on \<open>size_t\<close> values: below zero it wraps around \<open>2^64\<close>\<close>
  "size_t_sub a b = (if b \<le> a then a - b else a + 2 ^ 64 - b)"

section \<open>Alphabet extraction\<close>

definition push_unseen :: "char list \<Rightarrow> char \<Rightarrow> char list" where
  \<comment> \<open>\<open>if (std::find(...) == end) push_back(c)\<close>\<close>
  "push_unseen alph c = (if c \<in> set alph then alph else alph @ [c])"

definition generateAlphabet :: "string list \<Rightarrow> Model \<Rightarrow> Model" where
  "generateAlphabet trainData m =
     m\<lparr>m_alphabet :=
         sort_key schar (foldl (\<lambda>alph word. foldl push_unseen alph word) [boundary] trainData)\<rparr>"

section \<open>Chain construction\<close>

text \<open>
  \<open>observations\<close> is the local \<open>unordered_map<string, vector<char>>\<close> of
  \<open>buildChains\<close>, kept as an association list in order of first insertion with one
  entry per key. The iteration order of an \<open>unordered_map\<close> is unspecified; each key
  only writes its own entry of the chain, so the order does not show in the result.
\<close>

type_synonym observations = "(string \<times> char list) list"

fun observe :: "string \<Rightarrow> char \<Rightarrow> observations \<Rightarrow> observations" where
  \<comment> \<open>\<open>observations[key].push_back(c)\<close>\<close>
  "observe key c [] = [(key, [c])]"
| "observe key c ((k, v) # rest) =
     (if k = key then (k, v @ [c]) # rest else (k, v) # observe key c rest)"

definition pad :: "nat \<Rightarrow> string \<Rightarrow> string" where
  \<comment> \<open>\<open>word = padding + word + "#"\<close>\<close>
  "pad order w = replicate order boundary @ w @ [boundary]"

definition scan_word :: "nat \<Rightarrow> observations \<Rightarrow> string \<Rightarrow> observations" where
  \<comment> \<open>the inner \<open>for\<close> over \<open>i < word.length() - order\<close>; \<open>substr\<close> and \<open>at\<close> stay in range\<close>
  "scan_word order obs w =
     (let word = pad order w
      in foldl (\<lambda>obs i. observe (take order (drop i word)) (word ! (i + order)) obs)
           obs [0 ..< length word - order])"

definition count_char :: "char \<Rightarrow> char list \<Rightarrow> nat" where
  "count_char prediction value = length (filter (\<lambda>c. prediction = c) value)"

definition push_weight :: "real \<Rightarrow> string \<Rightarrow> char list \<Rightarrow> modelData \<Rightarrow> char \<Rightarrow> modelData" where
  \<comment> \<open>\<open>getModel(order)[key].push_back(m_dPrior + count)\<close>; \<open>operator[]\<close> creates a missing entry\<close>
  "push_weight prior key value chain prediction =
     chain(key \<mapsto> (case chain key of None \<Rightarrow> [] | Some v \<Rightarrow> v)
                     @ [prior + real (count_char prediction value)])"

definition buildChains :: "string list \<Rightarrow> nat \<Rightarrow> Model \<Rightarrow> error + Model" where
  \<comment> \<open>private; \<open>p_train\<close> calls it with \<open>1 \<le> order \<le> m_models.size()\<close> only\<close>
  "buildChains trainData order m =
     (if order = 0 \<or> length (m_models m) < order then Inl IndexUB
      else
        let observations = foldl (scan_word order) [] trainData;
            chain = foldl (\<lambda>chain (key, value).
                             foldl (push_weight (m_dPrior m) key value) chain (m_alphabet m))
                      (m_models m ! (order - 1)) observations
        in Inr (m\<lparr>m_models := (m_models m)[order - 1 := chain]\<rparr>))"

fun build_orders :: "string list \<Rightarrow> nat list \<Rightarrow> Model \<Rightarrow> error + Model" where
  "build_orders trainData [] m = Inr m"
| "build_orders trainData (i # rest) m =
     (case buildChains trainData i m of
        Inl e \<Rightarrow> Inl e
      | Inr m' \<Rightarrow> build_orders trainData rest m')"

definition p_train :: "string list \<Rightarrow> Model \<Rightarrow> error + Model" where
  \<comment> \<open>\<open>for (int i = 1; i <= m_order; i++) buildChains(trainData, i)\<close>\<close>
  "p_train trainData m =
     (let m1 = generateAlphabet trainData m
      in build_orders trainData [1 ..< Suc (nat (m_order m1))] m1)"

definition resize :: "nat \<Rightarrow> modelData list \<Rightarrow> modelData list" where
  "resize n ms = take n ms @ replicate (n - length ms) Map.empty"

definition train :: "string list \<Rightarrow> int \<Rightarrow> real \<Rightarrow> Model \<Rightarrow> error + Model" where
  \<comment> \<open>a negative order converts to a \<open>size_t\<close> above \<open>max_size()\<close>: \<open>resize\<close> throws\<close>
  "train trainData order dPrior m =
     (if order < 0 then Inl LengthError
      else p_train trainData
             (m\<lparr>m_order := order,
                m_models := map (\<lambda>chain. Map.empty) (resize (nat order) (m_models m)),
                m_dPrior := dPrior\<rparr>))"

definition Model_train :: "string list \<Rightarrow> int \<Rightarrow> real \<Rightarrow> error + Model" where
  \<comment> \<open>the constructor \<open>Model(trainData, order, dPrior)\<close>; it builds what \<open>train\<close>
      builds from the default model (lemma \<open>Model_train_eq\<close>)\<close>
  "Model_train trainData order dPrior =
     (if order < 0 then Inl LengthError
      else p_train trainData
             \<lparr>m_dPrior = dPrior, m_order = order, m_alphabet = [],
              m_models = resize (nat order) (replicate (nat order) Map.empty)\<rparr>)"

definition size_t_to_int :: "nat \<Rightarrow> int" where
  \<comment> \<open>conversion of a \<open>size_t\<close> to the 32-bit \<open>int\<close>\<close>
  "size_t_to_int n = (let r = int n mod 2 ^ 32 in if r < 2 ^ 31 then r else r - 2 ^ 32)"

definition Model_import :: "real \<Rightarrow> ExportedModel \<Rightarrow> Model" where
  \<comment> \<open>the constructors from an \<open>ExportedModel\<close>; \<open>m_dPrior\<close> is left uninitialised, \<open>d0\<close>
      stands for whatever it holds; \<open>models.size() - 1\<close> is \<open>size_t\<close> arithmetic\<close>
  "Model_import d0 e =
     \<lparr>m_dPrior = d0,
      m_order = size_t_to_int (size_t_sub (length (models e)) 1),
      m_alphabet = alphabet e,
      m_models = models e\<rparr>"

definition Model_default :: "real \<Rightarrow> Model" where
  "Model_default d0 = \<lparr>m_dPrior = d0, m_order = 0, m_alphabet = [], m_models = []\<rparr>"

definition exportData :: "Model \<Rightarrow> ExportedModel" where
  "exportData m = \<lparr>alphabet = m_alphabet m, models = m_models m\<rparr>"

definition order :: "Model \<Rightarrow> int" where
  "order m = m_order m"

definition isTrained :: "Model \<Rightarrow> bool" where
  "isTrained m = (m_models m \<noteq> [])"

section \<open>Weighted sampling and prediction\<close>

text \<open>
  The process-wide pseudorandom source is a sequence \<open>rng\<close> of the values that
  successive calls of \<open>rand()\<close> return and a position \<open>pos\<close> in it; a function that
  calls \<open>rand()\<close> returns the position after its calls. \<open>RAND_MAX\<close> has glibc's value.
\<close>

definition RAND_MAX :: nat where
  "RAND_MAX = 2147483647"

fun sum_loop :: "real \<Rightarrow> real list \<Rightarrow> real list \<Rightarrow> real \<times> real list" where
  \<comment> \<open>\<open>accumulator += weight; totals.push_back(accumulator)\<close>\<close>
  "sum_loop accumulator totals [] = (accumulator, totals)"
| "sum_loop accumulator totals (weight # rest) =
     sum_loop (accumulator + weight) (totals @ [accumulator + weight]) rest"

function find_loop :: "real \<Rightarrow> real list \<Rightarrow> nat \<Rightarrow> nat" where
  "find_loop random totals i =
     (if i < length totals
      then (if random < totals ! i then i else find_loop random totals (i + 1))
      else 0)"
  by pat_completeness auto
termination
  by (relation "measure (\<lambda>(random, totals, i). length totals - i)") auto

declare find_loop.simps [simp del]

definition selectIndex :: "real list \<Rightarrow> nat \<Rightarrow> nat" where
  \<comment> \<open>\<open>r\<close> is the value \<open>rand()\<close> returns\<close>
  "selectIndex chain r =
     (let (accumulator, totals) = sum_loop 0 [] chain;
          randRes = real r / real RAND_MAX;
          random = randRes * accumulator
      in find_loop random totals 0)"

definition substr :: "string \<Rightarrow> nat \<Rightarrow> nat \<Rightarrow> error + string" where
  "substr s pos n = (if length s < pos then Inl OutOfRange else Inr (take n (drop pos s)))"

definition getModel :: "Model \<Rightarrow> int \<Rightarrow> error + modelData" where
  "getModel m ord =
     (if 1 \<le> ord \<and> ord \<le> int (length (m_models m))
      then Inr (m_models m ! nat (ord - 1)) else Inl IndexUB)"

fun generate_loop :: "Model \<Rightarrow> (nat \<Rightarrow> nat) \<Rightarrow> string \<Rightarrow> nat \<Rightarrow> nat \<Rightarrow> error + char \<times> nat" where
  \<comment> \<open>\<open>for (int i = m_order; i > 0; i--)\<close>: the last argument is \<open>i\<close>; the chain looked up
      is \<open>getModel(order)\<close> with \<open>order = m_order\<close> in every round\<close>
  "generate_loop m rng context pos 0 = Inr (boundary, pos)"
| "generate_loop m rng context pos (Suc k) =
     (case substr context (size_t_sub (length context) (Suc k)) (Suc k) of
        Inl e \<Rightarrow> Inl e
      | Inr s \<Rightarrow>
          (case getModel m (m_order m) of
             Inl e \<Rightarrow> Inl e
           | Inr model \<Rightarrow>
               (case model s of
                  Some chain \<Rightarrow>
                    (let idx = selectIndex chain (rng pos)
                     in if idx < length (m_alphabet m)
                        then Inr (m_alphabet m ! idx, Suc pos) else Inl IndexUB)
                | None \<Rightarrow> generate_loop m rng context pos k)))"

definition generate :: "Model \<Rightarrow> (nat \<Rightarrow> nat) \<Rightarrow> string \<Rightarrow> nat \<Rightarrow> error + char \<times> nat" where
  "generate m rng context pos =
     (if \<not> isTrained m then Inr (boundary, pos)
      else generate_loop m rng context pos (nat (m_order m)))"

section \<open>Word synthesis\<close>

text \<open>
  The walk of \<open>newWord\<close> appends predicted letters until the boundary marker is
  predicted. Nothing bounds its length, so \<open>extend\<close> takes fuel: the number of letters
  it may append; \<open>None\<close> says that the fuel did not suffice. The exhaustion of memory is
  not modelled.
\<close>

record WordGenerator =
  m_model :: Model

fun extend :: "nat \<Rightarrow> Model \<Rightarrow> (nat \<Rightarrow> nat) \<Rightarrow> string \<Rightarrow> char \<Rightarrow> nat
    \<Rightarrow> (error + string \<times> nat) option" where
  \<comment> \<open>\<open>while (letter != '#') { word += letter; letter = m_model.generate(word); }\<close>\<close>
  "extend 0 m rng word letter pos =
     (if letter \<noteq> boundary then None else Some (Inr (word, pos)))"
| "extend (Suc fuel) m rng word letter pos =
     (if letter \<noteq> boundary
      then (case generate m rng (word @ [letter]) pos of
              Inl e \<Rightarrow> Some (Inl e)
            | Inr (letter', pos') \<Rightarrow> extend fuel m rng (word @ [letter]) letter' pos')
      else Some (Inr (word, pos)))"

definition attempt :: "nat \<Rightarrow> Model \<Rightarrow> (nat \<Rightarrow> nat) \<Rightarrow> nat \<Rightarrow> (error + string \<times> nat) option" where
  \<comment> \<open>one round of the \<open>do\<close> loop: seed, walk, strip the boundary markers\<close>
  "attempt fuel m rng pos =
     (if order m < 0 then Some (Inl LengthError)
      else
        let word = replicate (nat (order m)) boundary
        in case generate m rng word pos of
             Inl e \<Rightarrow> Some (Inl e)
           | Inr (letter, pos') \<Rightarrow>
               (case extend fuel m rng word letter pos' of
                  None \<Rightarrow> None
                | Some (Inl e) \<Rightarrow> Some (Inl e)
                | Some (Inr (word', pos'')) \<Rightarrow>
                    Some (Inr (filter (\<lambda>c. c \<noteq> boundary) word', pos''))))"

function newWord_loop :: "nat \<Rightarrow> Model \<Rightarrow> (nat \<Rightarrow> nat) \<Rightarrow> int \<Rightarrow> int \<Rightarrow> nat \<Rightarrow> nat
    \<Rightarrow> (error + string \<times> nat \<times> nat) option" where
  \<comment> \<open>\<open>do { ... } while (++i < 100 && (word.size() < minLength || word.size() > maxLength))\<close>;
      the comparisons convert the \<open>int\<close> bounds to \<open>size_t\<close>; the result carries the
      final value of \<open>i\<close>\<close>
  "newWord_loop fuel m rng minLength maxLength i pos =
     (case attempt fuel m rng pos of
        None \<Rightarrow> None
      | Some (Inl e) \<Rightarrow> Some (Inl e)
      | Some (Inr (word, pos')) \<Rightarrow>
          (if i + 1 < 100 \<and> (length word < to_size_t minLength \<or> to_size_t maxLength < length word)
           then newWord_loop fuel m rng minLength maxLength (i + 1) pos'
           else Some (Inr (word, i + 1, pos'))))"
  by pat_completeness auto
termination
  by (relation "measure (\<lambda>(fuel, m, rng, minLength, maxLength, i, pos). 100 - i)") auto

declare newWord_loop.simps [simp del]

definition newWord_count :: "nat \<Rightarrow> WordGenerator \<Rightarrow> (nat \<Rightarrow> nat) \<Rightarrow> int \<Rightarrow> int \<Rightarrow> nat
    \<Rightarrow> (error + string \<times> nat \<times> nat) option" where
  \<comment> \<open>\<open>newWord\<close>, reporting the number of attempts beside the word\<close>
  "newWord_count fuel g rng minLength maxLength pos =
     (if \<not> isTrained (m_model g) then Some (Inr ([], 0, pos))
      else newWord_loop fuel (m_model g) rng minLength maxLength 0 pos)"

definition newWord :: "nat \<Rightarrow> WordGenerator \<Rightarrow> (nat \<Rightarrow> nat) \<Rightarrow> int \<Rightarrow> int \<Rightarrow> nat
    \<Rightarrow> (error + string \<times> nat) option" where
  "newWord fuel g rng minLength maxLength pos =
     (case newWord_count fuel g rng minLength maxLength pos of
        None \<Rightarrow> None
      | Some (Inl e) \<Rightarrow> Some (Inl e)
      | Some (Inr (word, i, pos')) \<Rightarrow> Some (Inr (word, pos')))"

fun newWords_loop :: "nat \<Rightarrow> nat \<Rightarrow> WordGenerator \<Rightarrow> (nat \<Rightarrow> nat) \<Rightarrow> nat \<Rightarrow> int \<Rightarrow> int \<Rightarrow> bool
    \<Rightarrow> string list \<Rightarrow> nat \<Rightarrow> (error + string list \<times> nat) option" where
  \<comment> \<open>\<open>while (words.size() < n)\<close>; the first argument bounds the number of rounds\<close>
  "newWords_loop 0 fuel g rng n minLength maxLength repeat words pos =
     (if length words < n then None else Some (Inr (words, pos)))"
| "newWords_loop (Suc rounds) fuel g rng n minLength maxLength repeat words pos =
     (if length words < n
      then (case newWord fuel g rng minLength maxLength pos of
              None \<Rightarrow> None
            | Some (Inl e) \<Rightarrow> Some (Inl e)
            | Some (Inr (word, pos')) \<Rightarrow>
                newWords_loop rounds fuel g rng n minLength maxLength repeat
                  (if repeat \<or> word \<notin> set words then words @ [word] else words) pos')
      else Some (Inr (words, pos)))"

definition max_size :: nat where
  \<comment> \<open>\<open>vector<string>::max_size()\<close>: libstdc++ on a 64-bit platform, where a \<open>string\<close> takes
      32 bytes\<close>
  "max_size = (2 ^ 63 - 1) div 32"

definition newWords :: "nat \<Rightarrow> nat \<Rightarrow> WordGenerator \<Rightarrow> (nat \<Rightarrow> nat) \<Rightarrow> nat \<Rightarrow> int \<Rightarrow> int \<Rightarrow> bool
    \<Rightarrow> nat \<Rightarrow> (error + string list \<times> nat) option" where
  \<comment> \<open>\<open>n\<close> is a \<open>size_t\<close>; \<open>words.reserve(n)\<close> throws \<open>std::length_error\<close> for an \<open>n\<close>
      above \<open>max_size()\<close>\<close>
  "newWords rounds fuel g rng n minLength maxLength repeat pos =
     (if \<not> isTrained (m_model g) then Some (Inr ([], pos))
      else if max_size < n then Some (Inl LengthError)
      else newWords_loop rounds fuel g rng n minLength maxLength repeat [] pos)"

section \<open>The walks of a call\<close>

text \<open>
  Every attempt starts at the position of the random source where the attempt before
  it ended. \<open>nth_attempt fuel m rng pos j\<close> is the result of walk number \<open>j\<close>, counted
  from 0, of the walks that follow one another from \<open>pos\<close>; it is \<open>None\<close> when that
  walk, or one before it, does not reach the boundary marker within the fuel.
\<close>

fun nth_attempt :: "nat \<Rightarrow> Model \<Rightarrow> (nat \<Rightarrow> nat) \<Rightarrow> nat \<Rightarrow> nat \<Rightarrow> (error + string \<times> nat) option" where
  "nth_attempt fuel m rng pos 0 = attempt fuel m rng pos"
| "nth_attempt fuel m rng pos (Suc j) =
     (case attempt fuel m rng pos of
        Some (Inr (word, pos')) \<Rightarrow> nth_attempt fuel m rng pos' j
      | r \<Rightarrow> r)"

section \<open>The specification's count of followers\<close>

text \<open>
  Stated from the specification: the occurrences of a character \<open>c\<close> immediately after
  a \<open>k\<close>-character key in a word padded with \<open>k\<close> boundary markers on the left and one
  on the right, summed over the corpus; and the keys that occur at all.
\<close>

definition occurrences :: "nat \<Rightarrow> string \<Rightarrow> char \<Rightarrow> string \<Rightarrow> nat" where
  "occurrences k key c w =
     length (filter (\<lambda>i. take k (drop i (pad k w)) = key \<and> pad k w ! (i + k) = c)
               [0 ..< Suc (length w)])"

definition follow_count :: "string list \<Rightarrow> nat \<Rightarrow> string \<Rightarrow> char \<Rightarrow> nat" where
  "follow_count corpus k key c = sum_list (map (occurrences k key c) corpus)"

definition windows :: "nat \<Rightarrow> string \<Rightarrow> string list" where
  "windows k w = map (\<lambda>i. take k (drop i (pad k w))) [0 ..< Suc (length w)]"

definition observed_keys :: "nat \<Rightarrow> string list \<Rightarrow> string set" where
  "observed_keys k corpus = (\<Union>w \<in> set corpus. set (windows k w))"

definition observed_after :: "observations \<Rightarrow> string \<Rightarrow> char list" where
  \<comment> \<open>the characters recorded for a key, in order; none for a key without an entry\<close>
  "observed_after obs key = (case map_of obs key of None \<Rightarrow> [] | Some v \<Rightarrow> v)"

definition chain_spec :: "string list \<Rightarrow> real \<Rightarrow> char list \<Rightarrow> nat \<Rightarrow> modelData" where
  \<comment> \<open>the chain of order \<open>k\<close> as the specification describes it\<close>
  "chain_spec corpus prior alph k =
     (\<lambda>key. if key \<in> observed_keys k corpus
            then Some (map (\<lambda>c. prior + real (follow_count corpus k key c)) alph)
            else None)"

definition wf_model :: "Model \<Rightarrow> bool" where
  \<comment> \<open>what the constructors establish: a non-empty alphabet, an order within the chains,
      and no weight vector longer than the alphabet\<close>
  "wf_model m \<longleftrightarrow>
     m_alphabet m \<noteq> [] \<and> 0 \<le> m_order m \<and> m_order m \<le> int (length (m_models m))
     \<and> (\<forall>chain \<in> set (m_models m). \<forall>key v. chain key = Some v \<longrightarrow> length v \<le> length (m_alphabet m))"

section \<open>Inputs of the examples\<close>

definition rng_zero :: "nat \<Rightarrow> nat" where
  \<comment> \<open>a random source whose every draw is 0\<close>
  "rng_zero n = 0"

definition rng_max :: "nat \<Rightarrow> nat" where
  \<comment> \<open>a random source whose every draw is \<open>RAND_MAX\<close>\<close>
  "rng_max n = RAND_MAX"

definition model_a :: Model where
  \<comment> \<open>the model that training on the corpus \<open>["a"]\<close> with order 1 and prior 0 builds\<close>
  "model_a = \<lparr>m_dPrior = 0, m_order = 1, m_alphabet = ''#a'',
              m_models = [[''#'' \<mapsto> [0, 1], ''a'' \<mapsto> [1, 0]]]\<rparr>"

definition model_ab :: Model where
  \<comment> \<open>the model that training on \<open>["ab"]\<close> with order 2 and prior 0 builds\<close>
  "model_ab = \<lparr>m_dPrior = 0, m_order = 2, m_alphabet = ''#ab'',
      m_models = [[''#'' \<mapsto> [0, 1, 0], ''a'' \<mapsto> [0, 0, 1], ''b'' \<mapsto> [1, 0, 0]],
                  [''##'' \<mapsto> [0, 1, 0], ''#a'' \<mapsto> [0, 0, 1], ''ab'' \<mapsto> [1, 0, 0]]]\<rparr>"

definition model_empty_word :: Model where
  \<comment> \<open>the model that training on \<open>[""]\<close> with order 1 and prior 0 builds\<close>
  "model_empty_word = \<lparr>m_dPrior = 0, m_order = 1, m_alphabet = ''#'',
              m_models = [[''#'' \<mapsto> [1]]]\<rparr>"

definition model_aa :: Model where
  \<comment> \<open>the model that training on \<open>["aa"]\<close> with order 1 and prior 0 builds\<close>
  "model_aa = \<lparr>m_dPrior = 0, m_order = 1, m_alphabet = ''#a'',
               m_models = [[''#'' \<mapsto> [0, 1], ''a'' \<mapsto> [1, 1]]]\<rparr>"

definition rng_high :: "nat \<Rightarrow> nat" where
  \<comment> \<open>a random source whose every draw is \<open>RAND_MAX - 1\<close>\<close>
  "rng_high n = RAND_MAX - 1"

definition loop_snapshot :: ExportedModel where
  \<comment> \<open>a snapshot of two chains whose first chain makes \<open>a\<close> follow both \<open>#\<close> and \<open>a\<close>\<close>
  "loop_snapshot = \<lparr>alphabet = ''a'',
                     models = [[''#'' \<mapsto> [1], ''a'' \<mapsto> [1]], Map.empty]\<rparr>"

section \<open>Properties of the alphabet\<close>

lemma schar_inj: "schar a = schar b \<Longrightarrow> a = b"
proof -
  have r: "(of_char c :: int) < 256" "0 \<le> (of_char c :: int)" for c :: char
  proof -
    have "(of_char c :: nat) < 256" by (rule nat_of_char_less_256)
    then have "int (of_char c) < 256" by linarith
    then show "(of_char c :: int) < 256" by (simp only: of_nat_of_char)
    have "0 \<le> int (of_char c)" by simp
    then show "0 \<le> (of_char c :: int)" by (simp only: of_nat_of_char)
  qed
  assume "schar a = schar b"
  then have "(of_char a :: int) = of_char b"
    using r[of a] r[of b] by (auto simp: schar_def split: if_splits)
  then show ?thesis by simp
qed

lemma set_push_unseen: "set (push_unseen alph c) = insert c (set alph)"
  by (auto simp: push_unseen_def)

lemma distinct_push_unseen: "distinct alph \<Longrightarrow> distinct (push_unseen alph c)"
  by (simp add: push_unseen_def)

lemma set_scan_word: "set (foldl push_unseen alph word) = set alph \<union> set word"
  by (induction word arbitrary: alph) (auto simp: set_push_unseen)

lemma distinct_scan_word: "distinct alph \<Longrightarrow> distinct (foldl push_unseen alph word)"
  by (induction word arbitrary: alph) (auto simp: distinct_push_unseen)

lemma set_scan_corpus:
  "set (foldl (\<lambda>alph word. foldl push_unseen alph word) alph trainData)
     = set alph \<union> (\<Union>w \<in> set trainData. set w)"
  by (induction trainData arbitrary: alph) (auto simp: set_scan_word)

lemma distinct_scan_corpus:
  "distinct alph \<Longrightarrow> distinct (foldl (\<lambda>alph word. foldl push_unseen alph word) alph trainData)"
  by (induction trainData arbitrary: alph) (auto simp: distinct_scan_word)

text \<open>
  C6: the alphabet produced by training holds exactly the characters of the corpus and
  the boundary marker, in strictly ascending order (so sorted and free of duplicates).
\<close>

theorem generateAlphabet_exact:
  "set (m_alphabet (generateAlphabet trainData m)) = insert boundary (\<Union>w \<in> set trainData. set w)
   \<and> sorted (map schar (m_alphabet (generateAlphabet trainData m)))
   \<and> distinct (m_alphabet (generateAlphabet trainData m))
   \<and> sorted_wrt (<) (map schar (m_alphabet (generateAlphabet trainData m)))"
proof -
  let ?raw = "foldl (\<lambda>alph word. foldl push_unseen alph word) [boundary] trainData"
  have d: "distinct ?raw" by (rule distinct_scan_corpus) simp
  have s: "set ?raw = insert boundary (\<Union>w \<in> set trainData. set w)"
    by (simp add: set_scan_corpus)
  have dm: "distinct (map schar (sort_key schar ?raw))"
    using d by (simp add: distinct_map inj_on_def schar_inj)
  have so: "sorted (map schar (sort_key schar ?raw))" by simp
  from so dm have "sorted_wrt (<) (map schar (sort_key schar ?raw))"
    by (simp only: strict_sorted_iff)
  with so show ?thesis using d s by (simp add: generateAlphabet_def)
qed

section \<open>Properties of chain construction\<close>

lemma map_of_observe:
  "map_of (observe key c obs) = (map_of obs)(key \<mapsto> observed_after obs key @ [c])"
  by (induction obs) (auto simp: observed_after_def fun_eq_iff)

lemma keys_observe: "fst ` set (observe key c obs) = insert key (fst ` set obs)"
proof (induction obs)
  case Nil
  show ?case by simp
next
  case (Cons a obs)
  obtain k v where a: "a = (k, v)" by (cases a)
  show ?case
  proof (cases "k = key")
    case True
    then show ?thesis by (simp add: a)
  next
    case False
    then show ?thesis using Cons.IH by (simp add: a insert_commute)
  qed
qed

lemma distinct_observe: "distinct (map fst obs) \<Longrightarrow> distinct (map fst (observe key c obs))"
proof (induction obs)
  case Nil
  then show ?case by simp
next
  case (Cons a obs)
  obtain k v where a: "a = (k, v)" by (cases a)
  from Cons have d: "distinct (map fst (observe key c obs))" and k: "k \<notin> fst ` set obs"
    using a by auto
  show ?case
  proof (cases "k = key")
    case True
    with Cons.prems a show ?thesis by auto
  next
    case False
    with k have "k \<notin> fst ` set (observe key c obs)" by (simp add: keys_observe)
    with d a False show ?thesis by auto
  qed
qed

lemma after_observe:
  "observed_after (observe key c obs) key' = observed_after obs key' @ (if key' = key then [c] else [])"
  by (simp add: observed_after_def map_of_observe)

lemma after_positions:
  "observed_after (foldl (\<lambda>obs i. observe (K i) (C i) obs) obs ps) key
     = observed_after obs key @ map C (filter (\<lambda>i. K i = key) ps)"
  by (induction ps arbitrary: obs) (auto simp: after_observe)

lemma keys_positions:
  "fst ` set (foldl (\<lambda>obs i. observe (K i) (C i) obs) obs ps) = fst ` set obs \<union> K ` set ps"
  by (induction ps arbitrary: obs) (auto simp: keys_observe)

lemma distinct_positions:
  "distinct (map fst obs) \<Longrightarrow> distinct (map fst (foldl (\<lambda>obs i. observe (K i) (C i) obs) obs ps))"
  by (induction ps arbitrary: obs) (auto simp: distinct_observe)

lemma length_pad: "length (pad k w) - k = Suc (length w)"
  by (simp add: pad_def)

lemma count_char_append: "count_char c (xs @ ys) = count_char c xs + count_char c ys"
  by (simp add: count_char_def)

lemma count_char_map_filter:
  "count_char c (map C (filter P ps)) = length (filter (\<lambda>i. P i \<and> C i = c) ps)"
  by (induction ps) (auto simp: count_char_def)

lemma count_scan_word:
  "count_char c (observed_after (scan_word k obs w) key)
     = count_char c (observed_after obs key) + occurrences k key c w"
  by (simp add: scan_word_def Let_def length_pad after_positions count_char_append
      count_char_map_filter occurrences_def del: upt_Suc)

lemma keys_scan_word: "fst ` set (scan_word k obs w) = fst ` set obs \<union> set (windows k w)"
  by (simp add: scan_word_def Let_def length_pad keys_positions windows_def del: upt_Suc)

lemma distinct_scan_word_obs: "distinct (map fst obs) \<Longrightarrow> distinct (map fst (scan_word k obs w))"
  by (simp add: scan_word_def Let_def distinct_positions)

lemma count_scan_corpus:
  "count_char c (observed_after (foldl (scan_word k) obs corpus) key)
     = count_char c (observed_after obs key) + follow_count corpus k key c"
  by (induction corpus arbitrary: obs) (auto simp: count_scan_word follow_count_def)

lemma keys_scan_corpus:
  "fst ` set (foldl (scan_word k) obs corpus) = fst ` set obs \<union> observed_keys k corpus"
  by (induction corpus arbitrary: obs) (auto simp: keys_scan_word observed_keys_def)

lemma distinct_scan_corpus_obs:
  "distinct (map fst obs) \<Longrightarrow> distinct (map fst (foldl (scan_word k) obs corpus))"
  by (induction corpus arbitrary: obs) (auto simp: distinct_scan_word_obs)

lemma push_weights:
  "foldl (push_weight prior key value) chain (a # alph)
     = chain(key \<mapsto> (case chain key of None \<Rightarrow> [] | Some v \<Rightarrow> v)
                     @ map (\<lambda>p. prior + real (count_char p value)) (a # alph))"
proof (induction alph arbitrary: chain a)
  case Nil
  show ?case by (simp add: push_weight_def)
next
  case (Cons b alph)
  have "foldl (push_weight prior key value) chain (a # b # alph)
          = foldl (push_weight prior key value) (push_weight prior key value chain a) (b # alph)"
    by simp
  also have "\<dots> = chain(key \<mapsto> (case chain key of None \<Rightarrow> [] | Some v \<Rightarrow> v)
                     @ map (\<lambda>p. prior + real (count_char p value)) (a # b # alph))"
    by (subst Cons.IH) (simp add: push_weight_def)
  finally show ?case .
qed

lemma chain_of_observations:
  assumes "alph \<noteq> []" and "distinct (map fst obs)"
  shows "foldl (\<lambda>chain (key, value). foldl (push_weight prior key value) chain alph) chain obs key
     = (case map_of obs key of
          None \<Rightarrow> chain key
        | Some value \<Rightarrow> Some ((case chain key of None \<Rightarrow> [] | Some v \<Rightarrow> v)
                                @ map (\<lambda>p. prior + real (count_char p value)) alph))"
  using assms(2)
proof (induction obs arbitrary: chain)
  case Nil
  show ?case by simp
next
  case (Cons entry obs)
  obtain k v where e: "entry = (k, v)" by (cases entry)
  from assms(1) obtain a rest where al: "alph = a # rest" by (cases alph) auto
  from Cons.prems e have d: "distinct (map fst obs)" and k: "map_of obs k = None"
    by (auto simp: map_of_eq_None_iff)
  show ?case
    using k by (simp add: e Cons.IH[OF d] push_weights[of prior k v _ a rest, folded al]
      split: option.splits)
qed

lemma built_chain:
  assumes "alph \<noteq> []"
  shows "foldl (\<lambda>chain (key, value). foldl (push_weight prior key value) chain alph)
           Map.empty (foldl (scan_word k) [] corpus)
         = chain_spec corpus prior alph k"
proof (rule ext)
  fix key
  let ?obs = "foldl (scan_word k) [] corpus"
  have d: "distinct (map fst ?obs)" by (rule distinct_scan_corpus_obs) simp
  have keys: "fst ` set ?obs = observed_keys k corpus" by (simp add: keys_scan_corpus)
  have cnt: "count_char c (observed_after ?obs key) = follow_count corpus k key c" for c
    by (simp add: count_scan_corpus) (simp add: observed_after_def count_char_def)
  show "foldl (\<lambda>chain (key, value). foldl (push_weight prior key value) chain alph)
           Map.empty ?obs key = chain_spec corpus prior alph k key"
  proof (cases "map_of ?obs key")
    case None
    then have "key \<notin> observed_keys k corpus"
      using keys by (simp add: map_of_eq_None_iff)
    with None show ?thesis
      by (simp add: chain_of_observations[OF assms d] chain_spec_def)
  next
    case (Some vs)
    then have "key \<in> fst ` set ?obs" by (metis map_of_eq_None_iff option.distinct(1))
    then have k: "key \<in> observed_keys k corpus" using keys by simp
    from Some have "observed_after ?obs key = vs" by (simp add: observed_after_def)
    with cnt have "count_char c vs = follow_count corpus k key c" for c by simp
    with Some k show ?thesis
      by (simp add: chain_of_observations[OF assms d] chain_spec_def)
  qed
qed

lemma buildChains_spec:
  assumes "1 \<le> k" and "k \<le> length (m_models m)" and "m_models m ! (k - 1) = Map.empty"
    and "m_alphabet m \<noteq> []"
  shows "buildChains corpus k m
         = Inr (m\<lparr>m_models := (m_models m)[k - 1 := chain_spec corpus (m_dPrior m) (m_alphabet m) k]\<rparr>)"
  using assms by (simp add: buildChains_def Let_def built_chain)

lemma build_orders_spec:
  assumes "distinct ks"
    and "\<forall>k \<in> set ks. 1 \<le> k \<and> k \<le> length (m_models m) \<and> m_models m ! (k - 1) = Map.empty"
    and "m_alphabet m \<noteq> []"
  shows "\<exists>m'. build_orders corpus ks m = Inr m'
           \<and> m_dPrior m' = m_dPrior m \<and> m_order m' = m_order m \<and> m_alphabet m' = m_alphabet m
           \<and> length (m_models m') = length (m_models m)
           \<and> (\<forall>j < length (m_models m). m_models m' ! j =
                 (if Suc j \<in> set ks then chain_spec corpus (m_dPrior m) (m_alphabet m) (Suc j)
                  else m_models m ! j))"
  using assms
proof (induction ks arbitrary: m)
  case Nil
  show ?case by simp
next
  case (Cons k ks)
  let ?m1 = "m\<lparr>m_models := (m_models m)[k - 1 := chain_spec corpus (m_dPrior m) (m_alphabet m) k]\<rparr>"
  from Cons.prems have k: "1 \<le> k" "k \<le> length (m_models m)" "m_models m ! (k - 1) = Map.empty"
    by auto
  have b: "buildChains corpus k m = Inr ?m1"
    by (rule buildChains_spec[OF k Cons.prems(3)])
  have d: "distinct ks" and nk: "k \<notin> set ks" using Cons.prems(1) by auto
  have pre: "\<forall>i \<in> set ks. 1 \<le> i \<and> i \<le> length (m_models ?m1) \<and> m_models ?m1 ! (i - 1) = Map.empty"
  proof
    fix i assume i: "i \<in> set ks"
    with Cons.prems(2) have "1 \<le> i" "i \<le> length (m_models m)" "m_models m ! (i - 1) = Map.empty"
      by auto
    moreover from i nk have "i \<noteq> k" by auto
    with k(1) \<open>1 \<le> i\<close> have "i - 1 \<noteq> k - 1" by arith
    ultimately show "1 \<le> i \<and> i \<le> length (m_models ?m1) \<and> m_models ?m1 ! (i - 1) = Map.empty"
      by simp
  qed
  have al: "m_alphabet ?m1 \<noteq> []" using Cons.prems(3) by simp
  from Cons.IH[OF d pre al] obtain m' where
    r: "build_orders corpus ks ?m1 = Inr m'" and
    f: "m_dPrior m' = m_dPrior m" "m_order m' = m_order m" "m_alphabet m' = m_alphabet m"
       "length (m_models m') = length (m_models m)" and
    c: "\<forall>j < length (m_models m). m_models m' ! j =
          (if Suc j \<in> set ks then chain_spec corpus (m_dPrior m) (m_alphabet m) (Suc j)
           else m_models ?m1 ! j)"
    by auto
  have "\<forall>j < length (m_models m). m_models m' ! j =
          (if Suc j \<in> set (k # ks) then chain_spec corpus (m_dPrior m) (m_alphabet m) (Suc j)
           else m_models m ! j)"
  proof (intro allI impI)
    fix j assume j: "j < length (m_models m)"
    show "m_models m' ! j =
          (if Suc j \<in> set (k # ks) then chain_spec corpus (m_dPrior m) (m_alphabet m) (Suc j)
           else m_models m ! j)"
    proof (cases "Suc j = k")
      case True
      then have "j = k - 1" by simp
      with c j True nk show ?thesis by simp
    next
      case False
      then have "j \<noteq> k - 1" using k(1) by auto
      with c j False show ?thesis by simp
    qed
  qed
  with r f b show ?case by simp
qed

lemma alphabet_nonempty: "m_alphabet (generateAlphabet corpus m) \<noteq> []"
proof -
  have "boundary \<in> set (m_alphabet (generateAlphabet corpus m))"
    by (simp add: generateAlphabet_def set_scan_corpus)
  then show ?thesis by auto
qed

lemma p_train_spec:
  assumes "0 \<le> m_order m" and "m_models m = replicate (nat (m_order m)) Map.empty"
  shows "\<exists>m'. p_train corpus m = Inr m'
           \<and> m_dPrior m' = m_dPrior m \<and> m_order m' = m_order m
           \<and> m_alphabet m' = m_alphabet (generateAlphabet corpus m)
           \<and> length (m_models m') = nat (m_order m)
           \<and> (\<forall>j < nat (m_order m). m_models m' ! j =
                 chain_spec corpus (m_dPrior m) (m_alphabet m') (Suc j))"
proof -
  let ?m1 = "generateAlphabet corpus m"
  have f: "m_order ?m1 = m_order m" "m_models ?m1 = m_models m" "m_dPrior ?m1 = m_dPrior m"
    by (simp_all add: generateAlphabet_def)
  have "\<exists>m'. build_orders corpus [1 ..< Suc (nat (m_order ?m1))] ?m1 = Inr m'
           \<and> m_dPrior m' = m_dPrior ?m1 \<and> m_order m' = m_order ?m1 \<and> m_alphabet m' = m_alphabet ?m1
           \<and> length (m_models m') = length (m_models ?m1)
           \<and> (\<forall>j < length (m_models ?m1). m_models m' ! j =
                 (if Suc j \<in> set [1 ..< Suc (nat (m_order ?m1))]
                  then chain_spec corpus (m_dPrior ?m1) (m_alphabet ?m1) (Suc j)
                  else m_models ?m1 ! j))"
    by (rule build_orders_spec) (auto simp: f assms(2) alphabet_nonempty)
  then show ?thesis
    by (auto simp: p_train_def Let_def f assms(2))
qed

lemma train_spec:
  assumes "train corpus ord prior m0 = Inr m"
  shows "0 \<le> ord \<and> m_dPrior m = prior \<and> m_order m = ord
       \<and> m_alphabet m = m_alphabet (generateAlphabet corpus m0)
       \<and> length (m_models m) = nat ord
       \<and> (\<forall>j < nat ord. m_models m ! j = chain_spec corpus prior (m_alphabet m) (Suc j))"
proof -
  let ?m1 = "m0\<lparr>m_order := ord,
                m_models := map (\<lambda>chain. Map.empty) (resize (nat ord) (m_models m0)),
                m_dPrior := prior\<rparr>"
  from assms have o: "0 \<le> ord" and p: "p_train corpus ?m1 = Inr m"
    by (auto simp: train_def split: if_splits)
  have l: "length (resize (nat ord) (m_models m0)) = nat ord"
    by (simp add: resize_def)
  have e: "m_models ?m1 = replicate (nat (m_order ?m1)) Map.empty"
    by (simp add: map_replicate_const l)
  have o1: "0 \<le> m_order ?m1" using o by simp
  from p_train_spec[OF o1 e, of corpus] p o show ?thesis
    by (auto simp: generateAlphabet_def)
qed

lemma Model_train_eq: "Model_train corpus ord prior = train corpus ord prior (Model_default d0)"
  by (simp add: Model_train_def train_def Model_default_def resize_def p_train_def
      generateAlphabet_def)

lemmas train_defs = Model_train_def train_def Model_default_def p_train_def generateAlphabet_def
  buildChains_def scan_word_def pad_def push_weight_def push_unseen_def count_char_def resize_def
  boundary_def schar_def

lemma train_model_a: "train [''a''] 1 0 (Model_default 0) = Inr model_a"
  by (simp add: train_defs model_a_def upt_rec numeral_eq_Suc)

lemma train_model_ab: "train [''ab''] 2 0 (Model_default 0) = Inr model_ab"
  by (simp add: train_defs model_ab_def upt_rec numeral_eq_Suc)

lemma train_model_empty_word: "train [''''] 1 0 (Model_default 0) = Inr model_empty_word"
  by (simp add: train_defs model_empty_word_def upt_rec numeral_eq_Suc)

text \<open>
  C5: after training, the chain of order \<open>k\<close> stores no key that the padded corpus does
  not show, and maps every key it shows to a vector with one weight per alphabet
  character, in alphabet order: the prior plus the number of times the character
  follows the key. So no weight is below the prior.
\<close>

theorem trained_chain_weights:
  assumes "train corpus ord prior m0 = Inr m" and "1 \<le> k" and "k \<le> nat ord"
  shows "(key \<notin> observed_keys k corpus \<longrightarrow> (m_models m ! (k - 1)) key = None)
       \<and> (key \<in> observed_keys k corpus \<longrightarrow>
            (\<exists>v. (m_models m ! (k - 1)) key = Some v \<and> length v = length (m_alphabet m)
               \<and> (\<forall>j < length (m_alphabet m).
                    v ! j = prior + real (follow_count corpus k key (m_alphabet m ! j))
                    \<and> prior \<le> v ! j)))"
proof -
  from assms(2,3) have "k - 1 < nat ord" by arith
  with train_spec[OF assms(1)] assms(2)
  have "m_models m ! (k - 1) = chain_spec corpus prior (m_alphabet m) k" by auto
  then show ?thesis by (simp add: chain_spec_def)
qed

theorem trained_chain_weights_witness:
  "train [''a''] 1 0 (Model_default 0) = Inr model_a \<and> ''#'' \<in> observed_keys 1 [''a'']
   \<and> (\<exists>v. (m_models model_a ! 0) ''#'' = Some v \<and> length v = 2)"
proof -
  have o: "''#'' \<in> observed_keys 1 [''a'']"
    by (simp add: observed_keys_def windows_def pad_def boundary_def upt_rec)
  from trained_chain_weights[OF train_model_a, of 1 "''#''"] o train_model_a
  show ?thesis by (simp add: model_a_def)
qed

section \<open>Properties of prediction and word synthesis\<close>

lemma generate_loop_char:
  "generate_loop m rng context pos k = Inr (c, pos') \<Longrightarrow> c = boundary \<or> c \<in> set (m_alphabet m)"
  by (induction k) (auto split: sum.splits option.splits if_splits simp: Let_def)

lemma generate_char:
  "generate m rng context pos = Inr (c, pos') \<Longrightarrow> c = boundary \<or> c \<in> set (m_alphabet m)"
  by (auto simp: generate_def split: if_splits dest: generate_loop_char)

lemma extend_chars:
  "extend fuel m rng word letter pos = Some (Inr (w, pos')) \<Longrightarrow>
   set word \<subseteq> insert boundary (set (m_alphabet m)) \<Longrightarrow>
   letter \<in> insert boundary (set (m_alphabet m)) \<Longrightarrow>
   set w \<subseteq> insert boundary (set (m_alphabet m))"
proof (induction fuel arbitrary: word letter pos)
  case 0
  then show ?case by (auto split: if_splits)
next
  case (Suc fuel)
  show ?case
  proof (cases "letter = boundary")
    case True
    with Suc.prems show ?thesis by auto
  next
    case False
    with Suc.prems(1) obtain l p where
      g: "generate m rng (word @ [letter]) pos = Inr (l, p)" and
      e: "extend fuel m rng (word @ [letter]) l p = Some (Inr (w, pos'))"
      by (auto split: sum.splits)
    from Suc.prems(2,3) have s: "set (word @ [letter]) \<subseteq> insert boundary (set (m_alphabet m))"
      by auto
    from generate_char[OF g] have "l \<in> insert boundary (set (m_alphabet m))" by auto
    from Suc.IH[OF e s this] show ?thesis .
  qed
qed

lemma attempt_chars:
  assumes "attempt fuel m rng pos = Some (Inr (w, pos'))"
  shows "boundary \<notin> set w \<and> set w \<subseteq> set (m_alphabet m)"
proof -
  let ?seed = "replicate (nat (order m)) boundary"
  from assms obtain l p w' where
    g: "generate m rng ?seed pos = Inr (l, p)" and
    e: "extend fuel m rng ?seed l p = Some (Inr (w', pos'))" and
    w: "w = filter (\<lambda>c. c \<noteq> boundary) w'"
    by (auto simp: attempt_def Let_def split: if_splits sum.splits option.splits)
  have "set ?seed \<subseteq> insert boundary (set (m_alphabet m))" by auto
  moreover from generate_char[OF g] have "l \<in> insert boundary (set (m_alphabet m))" by auto
  ultimately have "set w' \<subseteq> insert boundary (set (m_alphabet m))"
    by (rule extend_chars[OF e])
  with w show ?thesis by auto
qed

lemma newWord_loop_result:
  "newWord_loop fuel m rng mn mx i pos = Some (Inr (w, j, pos')) \<Longrightarrow>
   (\<exists>p. attempt fuel m rng p = Some (Inr (w, pos'))) \<and> i < j \<and> (i < 100 \<longrightarrow> j \<le> 100)"
proof (induction fuel m rng mn mx i pos rule: newWord_loop.induct)
  case (1 fuel m rng mn mx i pos)
  from "1.prems" obtain word p where
    a: "attempt fuel m rng pos = Some (Inr (word, p))"
    by (subst (asm) newWord_loop.simps) (auto split: option.splits sum.splits)
  show ?case
  proof (cases "i + 1 < 100 \<and> (length word < to_size_t mn \<or> to_size_t mx < length word)")
    case True
    with a "1.prems" have r: "newWord_loop fuel m rng mn mx (i + 1) p = Some (Inr (w, j, pos'))"
      by (subst (asm) newWord_loop.simps) simp
    from "1.IH"[OF a refl refl True r] True show ?thesis by auto
  next
    case False
    with a "1.prems" have "w = word \<and> j = i + 1 \<and> pos' = p"
      by (subst (asm) newWord_loop.simps) auto
    with a show ?thesis by auto
  qed
qed

text \<open>
  C10: a string that \<open>newWord\<close> returns holds no boundary marker, and each of its
  characters is in the alphabet of the model, whatever the generator and the bounds.
\<close>

theorem newWord_no_boundary:
  assumes "newWord fuel g rng mn mx pos = Some (Inr (w, pos'))"
  shows "boundary \<notin> set w \<and> set w \<subseteq> set (m_alphabet (m_model g))"
proof (cases "isTrained (m_model g)")
  case False
  with assms show ?thesis
    by (auto simp: newWord_def newWord_count_def)
next
  case True
  with assms obtain j where
    "newWord_loop fuel (m_model g) rng mn mx 0 pos = Some (Inr (w, j, pos'))"
    by (auto simp: newWord_def newWord_count_def split: option.splits sum.splits)
  then obtain p where "attempt fuel (m_model g) rng p = Some (Inr (w, pos'))"
    using newWord_loop_result by blast
  then show ?thesis by (rule attempt_chars)
qed

lemmas gen_defs = generate_def isTrained_def getModel_def substr_def to_size_t_def size_t_sub_def
  selectIndex_def
  boundary_def find_loop.simps RAND_MAX_def rng_zero_def rng_max_def order_def

lemmas word_defs = newWords_def newWord_def newWord_count_def newWord_loop.simps attempt_def

theorem newWord_no_boundary_witness:
  "newWord 1 \<lparr>m_model = model_a\<rparr> rng_zero 1 5 0 = Some (Inr (''a'', 2))
   \<and> boundary \<notin> set ''a''
   \<and> set ''a'' \<subseteq> set (m_alphabet (m_model \<lparr>m_model = model_a\<rparr>))"
proof -
  have e: "newWord 1 \<lparr>m_model = model_a\<rparr> rng_zero 1 5 0 = Some (Inr (''a'', 2))"
    by (simp add: word_defs gen_defs model_a_def)
  from newWord_no_boundary[OF e] e show ?thesis by simp
qed

text \<open>
  C9: on a model without chains \<open>generate\<close> returns the boundary marker, \<open>newWord\<close>
  the empty string and \<open>newWords\<close> the empty sequence, each at once: no random
  value is drawn, and the result does not depend on the fuel.
\<close>

theorem untrained_fallbacks:
  assumes "\<not> isTrained (m_model g)"
  shows "generate (m_model g) rng context pos = Inr (boundary, pos)
       \<and> newWord fuel g rng mn mx pos = Some (Inr ([], pos))
       \<and> newWords rounds fuel g rng n mn mx repeat pos = Some (Inr ([], pos))"
  using assms by (simp add: generate_def newWord_def newWord_count_def newWords_def)

theorem untrained_fallbacks_witness:
  "\<not> isTrained (m_model \<lparr>m_model = Model_default 0\<rparr>)
   \<and> generate (Model_default 0) rng_zero ''abc'' 0 = Inr (boundary, 0)
   \<and> newWord 0 \<lparr>m_model = Model_default 0\<rparr> rng_zero 1 10 0 = Some (Inr ([], 0))
   \<and> newWords 0 0 \<lparr>m_model = Model_default 0\<rparr> rng_zero 5 1 10 False 0 = Some (Inr ([], 0))"
proof -
  have u: "\<not> isTrained (m_model \<lparr>m_model = Model_default 0\<rparr>)"
    by (simp add: isTrained_def Model_default_def)
  from untrained_fallbacks[OF u, of rng_zero "''abc''" 0 0 1 10 0 5 False] u
  show ?thesis by simp
qed

section \<open>Trained models never fail\<close>

lemma length_sum_loop:
  "length (snd (sum_loop acc totals chain)) = length totals + length chain"
  by (induction chain arbitrary: acc totals) auto

lemma find_loop_bound: "find_loop random totals i = 0 \<or> find_loop random totals i < length totals"
proof (induction random totals i rule: find_loop.induct)
  case (1 random totals i)
  then show ?case by (subst (1 2) find_loop.simps) auto
qed

lemma selectIndex_bound: "selectIndex chain r = 0 \<or> selectIndex chain r < length chain"
proof -
  obtain acc totals where s: "sum_loop 0 [] chain = (acc, totals)" by (cases "sum_loop 0 [] chain")
  then have "length totals = length chain" using length_sum_loop[of 0 "[]" chain] by simp
  with s find_loop_bound[of "real r / real RAND_MAX * acc" totals 0] show ?thesis
    by (simp add: selectIndex_def)
qed

lemma wf_trained:
  assumes "train corpus ord prior m0 = Inr m"
  shows "wf_model m"
proof -
  note t = train_spec[OF assms]
  have a: "m_alphabet m \<noteq> []" using t by (simp add: alphabet_nonempty)
  have "length v \<le> length (m_alphabet m)"
    if "chain \<in> set (m_models m)" "chain key = Some v" for chain key v
  proof -
    from that(1) obtain j where "j < length (m_models m)" "chain = m_models m ! j"
      by (auto simp: in_set_conv_nth)
    with t have "chain = chain_spec corpus prior (m_alphabet m) (Suc j)" by auto
    with that(2) show ?thesis by (auto simp: chain_spec_def split: if_splits)
  qed
  with a t show ?thesis by (auto simp: wf_model_def)
qed

lemma generate_loop_ok:
  assumes "wf_model m"
  shows "k \<le> length context \<Longrightarrow> k \<le> nat (m_order m) \<Longrightarrow>
         \<exists>c p. generate_loop m rng context pos k = Inr (c, p)"
proof (induction k)
  case 0
  show ?case by simp
next
  case (Suc k)
  from Suc.prems have s: "substr context (size_t_sub (length context) (Suc k)) (Suc k)
      = Inr (take (Suc k) (drop (length context - Suc k) context))"
    by (simp add: substr_def size_t_sub_def)
  from Suc.prems assms have g: "getModel m (m_order m) = Inr (m_models m ! nat (m_order m - 1))"
    by (auto simp: getModel_def wf_model_def)
  let ?model = "m_models m ! nat (m_order m - 1)"
  let ?s = "take (Suc k) (drop (length context - Suc k) context)"
  from Suc.prems assms have mem: "?model \<in> set (m_models m)"
    by (auto simp: wf_model_def intro!: nth_mem)
  show ?case
  proof (cases "?model ?s")
    case None
    with s g Suc show ?thesis by simp
  next
    case (Some chain)
    with mem assms have l: "length chain \<le> length (m_alphabet m)" and a: "m_alphabet m \<noteq> []"
      by (auto simp: wf_model_def)
    from selectIndex_bound[of chain "rng pos"] l a
    have "selectIndex chain (rng pos) < length (m_alphabet m)" by auto
    with s g Some show ?thesis by (simp add: Let_def)
  qed
qed

lemma generate_ok:
  assumes "wf_model m" and "nat (m_order m) \<le> length context"
  shows "\<exists>c p. generate m rng context pos = Inr (c, p)"
  using generate_loop_ok[OF assms(1) assms(2), of rng pos] by (simp add: generate_def)

lemma extend_ok:
  assumes "wf_model m"
  shows "nat (m_order m) \<le> length word \<Longrightarrow> extend fuel m rng word letter pos \<noteq> Some (Inl e)"
proof (induction fuel arbitrary: word letter pos)
  case 0
  show ?case by simp
next
  case (Suc fuel)
  show ?case
  proof (cases "letter = boundary")
    case True
    then show ?thesis by simp
  next
    case False
    from Suc.prems have l: "nat (m_order m) \<le> length (word @ [letter])" by simp
    from generate_ok[OF assms l, of rng pos] obtain c p where
      g: "generate m rng (word @ [letter]) pos = Inr (c, p)" by auto
    from Suc.IH[OF l, of c p] False g show ?thesis by simp
  qed
qed

lemma attempt_ok:
  assumes "wf_model m" and "attempt fuel m rng pos \<noteq> None"
  shows "\<exists>w p. attempt fuel m rng pos = Some (Inr (w, p))"
proof -
  let ?seed = "replicate (nat (order m)) boundary"
  from assms(1) have o: "\<not> order m < 0" by (simp add: wf_model_def order_def)
  have l: "nat (m_order m) \<le> length ?seed" by (simp add: order_def)
  from generate_ok[OF assms(1) l, of rng pos] obtain c p where
    g: "generate m rng ?seed pos = Inr (c, p)" by auto
  from extend_ok[OF assms(1) l] have "extend fuel m rng ?seed c p \<noteq> Some (Inl e)" for e .
  with assms(2) o g show ?thesis
    by (auto simp: attempt_def Let_def split: option.splits sum.splits)
qed

lemma newWord_loop_total:
  "wf_model m \<Longrightarrow> \<forall>p. attempt fuel m rng p \<noteq> None \<Longrightarrow>
   \<exists>w j p'. newWord_loop fuel m rng mn mx i pos = Some (Inr (w, j, p'))"
proof (induction fuel m rng mn mx i pos rule: newWord_loop.induct)
  case (1 fuel m rng mn mx i pos)
  from attempt_ok[OF "1.prems"(1)] "1.prems"(2) obtain word p where
    a: "attempt fuel m rng pos = Some (Inr (word, p))" by blast
  show ?case
  proof (cases "i + 1 < 100 \<and> (length word < to_size_t mn \<or> to_size_t mx < length word)")
    case True
    from "1.IH"[OF a refl refl True "1.prems"] a True show ?thesis
      by (subst newWord_loop.simps) simp
  next
    case False
    with a show ?thesis by (subst newWord_loop.simps) auto
  qed
qed

lemma same_sign_bounds:
  assumes "mx < mn" and "0 \<le> mx \<or> mn < 0" and "- (2 ^ 31) \<le> mx" and "mn < 2 ^ 31"
  shows "to_size_t mx < to_size_t mn"
proof (cases "0 \<le> mx")
  case True
  with assms show ?thesis by (simp add: to_size_t_def)
next
  case False
  with assms have n: "mx < 0" "mn < 0" by auto
  have w: "x mod 2 ^ 64 = x + 2 ^ 64" if "- (2 ^ 31) \<le> x" "x < 0" for x :: int
  proof -
    from that have "(x + 2 ^ 64) mod 2 ^ 64 = x + 2 ^ 64"
      by (intro mod_pos_pos_trivial) auto
    then show ?thesis by simp
  qed
  from n assms have b: "- (2 ^ 31) \<le> mn" by linarith
  have "mx mod 2 ^ 64 = mx + 2 ^ 64" by (rule w[OF assms(3) n(1)])
  moreover have "mn mod 2 ^ 64 = mn + 2 ^ 64" by (rule w[OF b n(2)])
  ultimately show ?thesis using assms by (simp add: to_size_t_def)
qed

lemma newWord_loop_cap:
  "newWord_loop fuel m rng mn mx i pos = Some (Inr (w, j, pos')) \<Longrightarrow>
   to_size_t mx < to_size_t mn \<Longrightarrow> i < 100 \<Longrightarrow> j = 100"
proof (induction fuel m rng mn mx i pos rule: newWord_loop.induct)
  case (1 fuel m rng mn mx i pos)
  from "1.prems"(1) obtain word p where
    a: "attempt fuel m rng pos = Some (Inr (word, p))"
    by (subst (asm) newWord_loop.simps) (auto split: option.splits sum.splits)
  from "1.prems"(2) have c: "length word < to_size_t mn \<or> to_size_t mx < length word"
    by arith
  show ?case
  proof (cases "i + 1 < 100")
    case True
    with a c "1.prems"(1) have r: "newWord_loop fuel m rng mn mx (i + 1) p = Some (Inr (w, j, pos'))"
      by (subst (asm) newWord_loop.simps) simp
    from True c have t: "i + 1 < 100 \<and> (length word < to_size_t mn \<or> to_size_t mx < length word)"
      by simp
    from "1.IH"[OF a refl refl t r "1.prems"(2)] True show ?thesis by simp
  next
    case False
    with a "1.prems"(1) have "j = i + 1"
      by (subst (asm) newWord_loop.simps) auto
    with False "1.prems"(3) show ?thesis by simp
  qed
qed

lemma newWord_loop_early:
  "newWord_loop fuel m rng mn mx i pos = Some (Inr (w, j, pos')) \<Longrightarrow> j < 100 \<Longrightarrow>
   to_size_t mn \<le> length w \<and> length w \<le> to_size_t mx"
proof (induction fuel m rng mn mx i pos rule: newWord_loop.induct)
  case (1 fuel m rng mn mx i pos)
  from "1.prems"(1) obtain word p where
    a: "attempt fuel m rng pos = Some (Inr (word, p))"
    by (subst (asm) newWord_loop.simps) (auto split: option.splits sum.splits)
  show ?case
  proof (cases "i + 1 < 100 \<and> (length word < to_size_t mn \<or> to_size_t mx < length word)")
    case True
    with a "1.prems"(1) have r: "newWord_loop fuel m rng mn mx (i + 1) p = Some (Inr (w, j, pos'))"
      by (subst (asm) newWord_loop.simps) simp
    from "1.IH"[OF a refl refl True r "1.prems"(2)] show ?thesis .
  next
    case False
    with a "1.prems"(1) have "w = word \<and> j = i + 1"
      by (subst (asm) newWord_loop.simps) auto
    with False "1.prems"(2) show ?thesis by auto
  qed
qed

section \<open>Positions of the random source\<close>

lemma generate_loop_pos:
  "generate_loop m rng context pos k = Inr (c, pos') \<Longrightarrow> pos \<le> pos'"
  by (induction k) (auto split: sum.splits option.splits if_splits simp: Let_def)

lemma generate_pos: "generate m rng context pos = Inr (c, pos') \<Longrightarrow> pos \<le> pos'"
  by (auto simp: generate_def split: if_splits dest: generate_loop_pos)

lemma extend_pos: "extend fuel m rng word letter pos = Some (Inr (w, pos')) \<Longrightarrow> pos \<le> pos'"
proof (induction fuel arbitrary: word letter pos)
  case 0
  then show ?case by (auto split: if_splits)
next
  case (Suc fuel)
  show ?case
  proof (cases "letter = boundary")
    case True
    with Suc.prems show ?thesis by auto
  next
    case False
    with Suc.prems obtain l p where
      g: "generate m rng (word @ [letter]) pos = Inr (l, p)" and
      e: "extend fuel m rng (word @ [letter]) l p = Some (Inr (w, pos'))"
      by (auto split: sum.splits)
    from generate_pos[OF g] Suc.IH[OF e] show ?thesis by simp
  qed
qed

lemma attempt_pos:
  assumes "attempt fuel m rng pos = Some (Inr (w, pos'))"
  shows "pos \<le> pos'"
proof -
  let ?seed = "replicate (nat (order m)) boundary"
  from assms obtain l p w' where
    g: "generate m rng ?seed pos = Inr (l, p)" and
    e: "extend fuel m rng ?seed l p = Some (Inr (w', pos'))"
    by (auto simp: attempt_def Let_def split: if_splits sum.splits option.splits)
  from generate_pos[OF g] extend_pos[OF e] show ?thesis by simp
qed

lemma newWord_loop_from:
  "newWord_loop fuel m rng mn mx i pos = Some (Inr (w, j, pos')) \<Longrightarrow>
   \<exists>p. pos \<le> p \<and> p \<le> pos' \<and> attempt fuel m rng p = Some (Inr (w, pos'))"
proof (induction fuel m rng mn mx i pos rule: newWord_loop.induct)
  case (1 fuel m rng mn mx i pos)
  from "1.prems" obtain word p where
    a: "attempt fuel m rng pos = Some (Inr (word, p))"
    by (subst (asm) newWord_loop.simps) (auto split: option.splits sum.splits)
  show ?case
  proof (cases "i + 1 < 100 \<and> (length word < to_size_t mn \<or> to_size_t mx < length word)")
    case True
    with a "1.prems" have r: "newWord_loop fuel m rng mn mx (i + 1) p = Some (Inr (w, j, pos'))"
      by (subst (asm) newWord_loop.simps) simp
    from "1.IH"[OF a refl refl True r] attempt_pos[OF a] show ?thesis
      by (meson le_trans)
  next
    case False
    with a "1.prems" have "w = word \<and> pos' = p"
      by (subst (asm) newWord_loop.simps) auto
    with a attempt_pos[OF a] show ?thesis by auto
  qed
qed

lemma newWord_loop_no_error:
  "wf_model m \<Longrightarrow> newWord_loop fuel m rng mn mx i pos \<noteq> Some (Inl e)"
proof (induction fuel m rng mn mx i pos rule: newWord_loop.induct)
  case (1 fuel m rng mn mx i pos)
  show ?case
  proof (cases "attempt fuel m rng pos")
    case None
    then show ?thesis by (subst newWord_loop.simps) simp
  next
    case (Some r)
    with attempt_ok[OF "1.prems", of fuel rng pos] obtain word p where
      a: "attempt fuel m rng pos = Some (Inr (word, p))" by auto
    show ?thesis
    proof (cases "i + 1 < 100 \<and> (length word < to_size_t mn \<or> to_size_t mx < length word)")
      case True
      from "1.IH"[OF a refl refl True "1.prems"] a True show ?thesis
        by (subst newWord_loop.simps) simp
    next
      case False
      with a show ?thesis by (subst newWord_loop.simps) auto
    qed
  qed
qed

lemma newWord_loop_none:
  "newWord_loop fuel m rng mn mx i pos = None \<Longrightarrow> wf_model m \<Longrightarrow>
   \<exists>p. pos \<le> p \<and> attempt fuel m rng p = None"
proof (induction fuel m rng mn mx i pos rule: newWord_loop.induct)
  case (1 fuel m rng mn mx i pos)
  show ?case
  proof (cases "attempt fuel m rng pos")
    case None
    then show ?thesis by auto
  next
    case (Some r)
    with attempt_ok[OF "1.prems"(2), of fuel rng pos] obtain word p where
      a: "attempt fuel m rng pos = Some (Inr (word, p))" by auto
    show ?thesis
    proof (cases "i + 1 < 100 \<and> (length word < to_size_t mn \<or> to_size_t mx < length word)")
      case True
      with a "1.prems"(1) have "newWord_loop fuel m rng mn mx (i + 1) p = None"
        by (subst (asm) newWord_loop.simps) simp
      from "1.IH"[OF a refl refl True this "1.prems"(2)] attempt_pos[OF a] show ?thesis
        by (meson le_trans)
    next
      case False
      with a "1.prems"(1) show ?thesis by (subst (asm) newWord_loop.simps) auto
    qed
  qed
qed

section \<open>The attempts of newWord, walk by walk\<close>

lemma newWord_loop_walks:
  assumes "wf_model m"
  shows "i + k < 100 \<Longrightarrow> \<forall>j \<le> k. nth_attempt fuel m rng pos j \<noteq> None \<Longrightarrow>
     i + k = 99 \<or> (\<exists>w p. nth_attempt fuel m rng pos k = Some (Inr (w, p))
                       \<and> to_size_t mn \<le> length w \<and> length w \<le> to_size_t mx) \<Longrightarrow>
     \<exists>w i' pos'. newWord_loop fuel m rng mn mx i pos = Some (Inr (w, i', pos'))
        \<and> i < i' \<and> i' \<le> i + k + 1
        \<and> nth_attempt fuel m rng pos (i' - i - 1) = Some (Inr (w, pos'))"
proof (induction k arbitrary: i pos)
  case 0
  from "0.prems"(2) have "attempt fuel m rng pos \<noteq> None" by simp
  from attempt_ok[OF assms this] obtain word p where
    a: "attempt fuel m rng pos = Some (Inr (word, p))" by auto
  from "0.prems"(1,3) a
  have "\<not> (i + 1 < 100 \<and> (length word < to_size_t mn \<or> to_size_t mx < length word))"
    by auto
  with a show ?case by (subst newWord_loop.simps) auto
next
  case (Suc k)
  from Suc.prems(2) have "nth_attempt fuel m rng pos 0 \<noteq> None" by blast
  then have "attempt fuel m rng pos \<noteq> None" by simp
  from attempt_ok[OF assms this] obtain word p where
    a: "attempt fuel m rng pos = Some (Inr (word, p))" by auto
  have n: "nth_attempt fuel m rng pos (Suc j) = nth_attempt fuel m rng p j" for j
    using a by simp
  show ?case
  proof (cases "i + 1 < 100 \<and> (length word < to_size_t mn \<or> to_size_t mx < length word)")
    case False
    with a show ?thesis by (subst newWord_loop.simps) auto
  next
    case True
    from Suc.prems(1) have b: "(i + 1) + k < 100" by simp
    have e: "\<forall>j \<le> k. nth_attempt fuel m rng p j \<noteq> None"
    proof (intro allI impI)
      fix j assume "j \<le> k"
      then have "Suc j \<le> Suc k" by simp
      with Suc.prems(2) have "nth_attempt fuel m rng pos (Suc j) \<noteq> None" by blast
      then show "nth_attempt fuel m rng p j \<noteq> None" by (simp add: a)
    qed
    from Suc.prems(3) have l: "(i + 1) + k = 99
        \<or> (\<exists>w p'. nth_attempt fuel m rng p k = Some (Inr (w, p'))
              \<and> to_size_t mn \<le> length w \<and> length w \<le> to_size_t mx)"
      by (simp add: a)
    from Suc.IH[OF b e l] obtain w i' pos' where
      r: "newWord_loop fuel m rng mn mx (i + 1) p = Some (Inr (w, i', pos'))" and
      c: "i + 1 < i'" "i' \<le> (i + 1) + k + 1" and
      t: "nth_attempt fuel m rng p (i' - (i + 1) - 1) = Some (Inr (w, pos'))"
      by blast
    from c have "i' - i - 1 = Suc (i' - (i + 1) - 1)" by simp
    with t have "nth_attempt fuel m rng pos (i' - i - 1) = Some (Inr (w, pos'))"
      by (simp add: a)
    moreover from a True r have "newWord_loop fuel m rng mn mx i pos = Some (Inr (w, i', pos'))"
      by (subst newWord_loop.simps) simp
    ultimately show ?thesis using c by auto
  qed
qed

lemma length_bounds:
  assumes "0 \<le> x" and "x < 2 ^ 31"
  shows "to_size_t x = nat x"
proof -
  from assms have "x mod 2 ^ 64 = x" by (intro mod_pos_pos_trivial) auto
  then show ?thesis by (simp add: to_size_t_def)
qed

lemma newWord_by_walks:
  assumes "wf_model m" and "isTrained m"
    and "0 \<le> mn" and "mn < 2 ^ 31" and "0 \<le> mx" and "mx < 2 ^ 31"
    and "k < 100" and "\<forall>j \<le> k. nth_attempt fuel m rng pos j \<noteq> None"
    and "k = 99 \<or> (\<exists>w p. nth_attempt fuel m rng pos k = Some (Inr (w, p))
                       \<and> mn \<le> int (length w) \<and> int (length w) \<le> mx)"
  shows "\<exists>w i pos'. newWord_count fuel \<lparr>m_model = m\<rparr> rng mn mx pos = Some (Inr (w, i, pos'))
           \<and> 1 \<le> i \<and> i \<le> k + 1
           \<and> nth_attempt fuel m rng pos (i - 1) = Some (Inr (w, pos'))
           \<and> (i < 100 \<longrightarrow> mn \<le> int (length w) \<and> int (length w) \<le> mx)
           \<and> (mx < mn \<longrightarrow> i = 100)"
proof -
  have sn: "to_size_t mn = nat mn" by (rule length_bounds[OF assms(3,4)])
  have sx: "to_size_t mx = nat mx" by (rule length_bounds[OF assms(5,6)])
  from assms(9) assms(3,5) have l: "0 + k = 99
      \<or> (\<exists>w p. nth_attempt fuel m rng pos k = Some (Inr (w, p))
            \<and> to_size_t mn \<le> length w \<and> length w \<le> to_size_t mx)"
    unfolding sn sx by (auto simp: nat_le_iff le_nat_iff)
  from assms(7) have b: "0 + k < 100" by simp
  from newWord_loop_walks[OF assms(1) b assms(8) l] obtain w i pos' where
    r: "newWord_loop fuel m rng mn mx 0 pos = Some (Inr (w, i, pos'))" and
    c: "0 < i" "i \<le> k + 1" and
    t: "nth_attempt fuel m rng pos (i - 1) = Some (Inr (w, pos'))"
    by auto
  from newWord_loop_early[OF r] assms(3,5)
  have e: "i < 100 \<longrightarrow> mn \<le> int (length w) \<and> int (length w) \<le> mx"
    unfolding sn sx by (auto simp: nat_le_iff le_nat_iff)
  have "mx < mn \<longrightarrow> i = 100"
  proof
    assume "mx < mn"
    with assms(3,5) have "to_size_t mx < to_size_t mn" unfolding sn sx by simp
    from newWord_loop_cap[OF r this] show "i = 100" by simp
  qed
  with r c t e assms(2) show ?thesis by (simp add: newWord_count_def)
qed

lemma attempt_model_a: "attempt (Suc 0) model_a rng_zero p = Some (Inr (''a'', Suc (Suc p)))"
  by (simp add: attempt_def gen_defs model_a_def)

lemma isTrained_model_a: "isTrained model_a"
  by (simp add: isTrained_def model_a_def)

lemma newWord_negative_bound:
  "train [''a''] 1 0 (Model_default 0) = Inr model_a
   \<and> newWord_count 1 \<lparr>m_model = model_a\<rparr> rng_zero 0 (- 1) 0 = Some (Inr (''a'', 1, 2))"
  by (simp add: train_model_a newWord_count_def newWord_loop.simps attempt_model_a
      isTrained_model_a to_size_t_def)

section \<open>A walk that never ends\<close>

text \<open>
  Whether a walk ends depends on the draws. On the model trained on \<open>["aa"]\<close> the
  letter \<open>a\<close> follows \<open>a\<close> with weight 1 of 2; if every draw is
  \<open>RAND_MAX - 1\<close> the walk appends \<open>a\<close> for ever and \<open>newWord\<close> does not return,
  whatever the fuel.
\<close>

lemma train_model_aa: "train [''aa''] 1 0 (Model_default 0) = Inr model_aa"
  by (simp add: train_defs model_aa_def upt_rec numeral_eq_Suc)

lemma generate_model_aa_seed:
  "generate model_aa rng_high ''#'' pos = Inr (CHR ''a'', Suc pos)"
  by (simp add: generate_def isTrained_def getModel_def substr_def size_t_sub_def selectIndex_def
      find_loop.simps RAND_MAX_def rng_high_def model_aa_def)

lemma generate_model_aa_after_a:
  "generate model_aa rng_high (word @ ''a'') pos = Inr (CHR ''a'', Suc pos)"
  by (simp add: generate_def isTrained_def getModel_def substr_def size_t_sub_def selectIndex_def
      find_loop.simps RAND_MAX_def rng_high_def model_aa_def)

lemma extend_model_aa: "extend fuel model_aa rng_high word (CHR ''a'') pos = None"
  by (induction fuel arbitrary: word pos) (simp_all add: generate_model_aa_after_a boundary_def)

lemma attempt_model_aa: "attempt fuel model_aa rng_high pos = None"
proof -
  have o: "order model_aa = 1" by (simp add: order_def model_aa_def)
  have s: "replicate (nat 1) boundary = ''#''" by (simp add: boundary_def)
  show ?thesis
    unfolding attempt_def o s by (simp add: generate_model_aa_seed extend_model_aa)
qed

lemma newWord_may_not_return:
  "train [''aa''] 1 0 (Model_default 0) = Inr model_aa
   \<and> (\<forall>fuel. newWord fuel \<lparr>m_model = model_aa\<rparr> rng_high 1 5 0 = None)"
proof -
  have "isTrained model_aa" by (simp add: isTrained_def model_aa_def)
  then have "newWord fuel \<lparr>m_model = model_aa\<rparr> rng_high 1 5 0 = None" for fuel
    by (simp add: newWord_def newWord_count_def newWord_loop.simps attempt_model_aa)
  with train_model_aa show ?thesis by simp
qed

lemma nth_attempt_model_a:
  "nth_attempt (Suc 0) model_a rng_zero p j = Some (Inr (''a'', p + 2 * Suc j))"
  by (induction j arbitrary: p) (simp_all add: attempt_model_a)

lemma wf_model_a: "wf_model model_a"
  by (rule wf_trained[OF train_model_a])

section \<open>A generator whose walk never ends\<close>

lemma import_loop_snapshot:
  "Model_import 0 loop_snapshot
     = \<lparr>m_dPrior = 0, m_order = 1, m_alphabet = ''a'',
        m_models = [[''#'' \<mapsto> [1], ''a'' \<mapsto> [1]], Map.empty]\<rparr>"
  by (simp add: Model_import_def loop_snapshot_def size_t_to_int_def size_t_sub_def)

lemma wf_loop: "wf_model (Model_import 0 loop_snapshot)"
  by (auto simp: import_loop_snapshot wf_model_def split: if_splits)

lemma isTrained_loop: "isTrained (Model_import 0 loop_snapshot)"
  by (simp add: import_loop_snapshot isTrained_def)

lemma selectIndex_single: "selectIndex [w] r = 0"
  using selectIndex_bound[of "[w]" r] by simp

lemma generate_loop_seed:
  "generate (Model_import 0 loop_snapshot) rng ''#'' pos = Inr (CHR ''a'', Suc pos)"
  by (simp add: import_loop_snapshot generate_def isTrained_def getModel_def substr_def
      size_t_sub_def selectIndex_single)

lemma generate_loop_after_a:
  "generate (Model_import 0 loop_snapshot) rng (word @ ''a'') pos = Inr (CHR ''a'', Suc pos)"
  by (simp add: import_loop_snapshot generate_def isTrained_def getModel_def substr_def
      size_t_sub_def selectIndex_single)

lemma extend_loop:
  "extend fuel (Model_import 0 loop_snapshot) rng word (CHR ''a'') pos = None"
  by (induction fuel arbitrary: word pos) (simp_all add: generate_loop_after_a boundary_def)

lemma attempt_loop: "attempt fuel (Model_import 0 loop_snapshot) rng pos = None"
proof -
  have o: "order (Model_import 0 loop_snapshot) = 1"
    by (simp add: order_def import_loop_snapshot)
  have s: "replicate (nat 1) boundary = ''#''" by (simp add: boundary_def)
  show ?thesis
    unfolding attempt_def o s by (simp add: generate_loop_seed extend_loop)
qed

section \<open>More fuel changes no result\<close>

lemma extend_mono:
  "extend fuel m rng word letter pos = Some r \<Longrightarrow>
   extend (fuel + d) m rng word letter pos = Some r"
proof (induction fuel arbitrary: word letter pos)
  case 0
  then show ?case by (cases d) (auto split: if_splits)
next
  case (Suc fuel)
  show ?case
  proof (cases "letter = boundary")
    case True
    with Suc.prems show ?thesis by simp
  next
    case False
    show ?thesis
    proof (cases "generate m rng (word @ [letter]) pos")
      case (Inl e)
      with False Suc.prems show ?thesis by simp
    next
      case (Inr lp)
      obtain l p where lp: "lp = (l, p)" by (cases lp)
      with Inr False Suc.prems have "extend fuel m rng (word @ [letter]) l p = Some r" by simp
      from Suc.IH[OF this] Inr lp False show ?thesis by simp
    qed
  qed
qed

lemma attempt_mono:
  assumes "attempt fuel m rng pos = Some r"
  shows "attempt (fuel + d) m rng pos = Some r"
proof (cases "order m < 0")
  case True
  with assms show ?thesis by (simp add: attempt_def)
next
  case False
  let ?seed = "replicate (nat (order m)) boundary"
  show ?thesis
  proof (cases "generate m rng ?seed pos")
    case (Inl e)
    with False assms show ?thesis by (simp add: attempt_def)
  next
    case (Inr lp)
    obtain l p where lp: "lp = (l, p)" by (cases lp)
    from assms False Inr lp obtain x where
      e: "extend fuel m rng ?seed l p = Some x"
      by (cases "extend fuel m rng ?seed l p") (auto simp: attempt_def)
    from extend_mono[OF e, of d] e assms False Inr lp show ?thesis
      by (simp add: attempt_def)
  qed
qed

lemma nth_attempt_mono:
  "nth_attempt fuel m rng pos j = Some r \<Longrightarrow> nth_attempt (fuel + d) m rng pos j = Some r"
proof (induction j arbitrary: pos)
  case 0
  then show ?case by (simp add: attempt_mono)
next
  case (Suc j)
  from Suc.prems obtain x where a: "attempt fuel m rng pos = Some x"
    by (cases "attempt fuel m rng pos") auto
  note b = attempt_mono[OF a, of d]
  show ?case
  proof (cases x)
    case (Inl e)
    with a Suc.prems have "r = Inl e" by simp
    with Inl b show ?thesis by simp
  next
    case (Inr wp)
    obtain w p where wp: "wp = (w, p)" by (cases wp)
    with Inr a Suc.prems have "nth_attempt fuel m rng p j = Some r" by simp
    from Suc.IH[OF this] Inr wp a b show ?thesis by simp
  qed
qed

lemma newWord_loop_mono:
  "newWord_loop fuel m rng mn mx i pos = Some r \<Longrightarrow>
   newWord_loop (fuel + d) m rng mn mx i pos = Some r"
proof (induction fuel m rng mn mx i pos rule: newWord_loop.induct)
  case (1 fuel m rng mn mx i pos)
  from "1.prems" obtain x where a: "attempt fuel m rng pos = Some x"
    by (subst (asm) newWord_loop.simps) (auto split: option.splits)
  note b = attempt_mono[OF a, of d]
  show ?case
  proof (cases x)
    case (Inl e)
    with a "1.prems" have "r = Inl e" by (subst (asm) newWord_loop.simps) simp
    with Inl b show ?thesis by (subst newWord_loop.simps) simp
  next
    case (Inr wp)
    obtain word p where wp: "wp = (word, p)" by (cases wp)
    with Inr a b have a': "attempt fuel m rng pos = Some (Inr (word, p))"
      and b': "attempt (fuel + d) m rng pos = Some (Inr (word, p))" by simp_all
    show ?thesis
    proof (cases "i + 1 < 100 \<and> (length word < to_size_t mn \<or> to_size_t mx < length word)")
      case True
      with a' "1.prems" have "newWord_loop fuel m rng mn mx (i + 1) p = Some r"
        by (subst (asm) newWord_loop.simps) simp
      from "1.IH"[OF a' refl refl True this] b' True show ?thesis
        by (subst newWord_loop.simps) simp
    next
      case False
      with a' "1.prems" have "r = Inr (word, i + 1, p)"
        by (subst (asm) newWord_loop.simps) auto
      with b' False show ?thesis by (subst newWord_loop.simps) auto
    qed
  qed
qed

lemma newWord_count_mono:
  "newWord_count fuel g rng mn mx pos = Some r \<Longrightarrow> newWord_count (fuel + d) g rng mn mx pos = Some r"
  by (auto simp: newWord_count_def newWord_loop_mono split: if_splits)

lemma newWord_mono:
  assumes "newWord fuel g rng mn mx pos = Some r"
  shows "newWord (fuel + d) g rng mn mx pos = Some r"
proof -
  from assms obtain x where c: "newWord_count fuel g rng mn mx pos = Some x"
    by (cases "newWord_count fuel g rng mn mx pos") (auto simp: newWord_def)
  from newWord_count_mono[OF c, of d] c assms show ?thesis by (simp add: newWord_def)
qed

lemma newWords_loop_mono:
  "newWords_loop rounds fuel g rng n mn mx repeat ws pos = Some r \<Longrightarrow>
   newWords_loop rounds (fuel + d) g rng n mn mx repeat ws pos = Some r"
proof (induction rounds arbitrary: ws pos)
  case 0
  then show ?case by simp
next
  case (Suc rounds)
  show ?case
  proof (cases "length ws < n")
    case False
    with Suc.prems show ?thesis by simp
  next
    case True
    with Suc.prems obtain x where nw: "newWord fuel g rng mn mx pos = Some x"
      by (cases "newWord fuel g rng mn mx pos") auto
    note b = newWord_mono[OF nw, of d]
    show ?thesis
    proof (cases x)
      case (Inl e)
      with nw b True Suc.prems show ?thesis by simp
    next
      case (Inr wp)
      obtain w p where wp: "wp = (w, p)" by (cases wp)
      with Inr nw True Suc.prems have "newWords_loop rounds fuel g rng n mn mx repeat
          (if repeat \<or> w \<notin> set ws then ws @ [w] else ws) p = Some r" by simp
      from Suc.IH[OF this] Inr wp nw b True show ?thesis by simp
    qed
  qed
qed

lemma newWords_mono:
  "newWords rounds fuel g rng n mn mx repeat pos = Some r \<Longrightarrow>
   newWords rounds (fuel + d) g rng n mn mx repeat pos = Some r"
  by (auto simp: newWords_def newWords_loop_mono split: if_splits)

lemma common_fuel:
  "\<forall>j < N. \<exists>f. nth_attempt f m rng pos j \<noteq> None \<Longrightarrow>
   \<exists>F. \<forall>j < N. nth_attempt F m rng pos j \<noteq> None"
proof (induction N)
  case 0
  show ?case by simp
next
  case (Suc N)
  then obtain F where F: "\<forall>j < N. nth_attempt F m rng pos j \<noteq> None" by auto
  from Suc.prems have "\<exists>f. nth_attempt f m rng pos N \<noteq> None" by blast
  then obtain f where f: "nth_attempt f m rng pos N \<noteq> None" by blast
  have "nth_attempt (F + f) m rng pos j \<noteq> None" if "j < Suc N" for j
  proof (cases "j = N")
    case True
    from f obtain r where "nth_attempt f m rng pos N = Some r" by auto
    from nth_attempt_mono[OF this, of F] True show ?thesis by (simp add: add.commute)
  next
    case False
    with that have "j < N" by simp
    with F obtain r where "nth_attempt F m rng pos j = Some r" by auto
    from nth_attempt_mono[OF this, of f] show ?thesis by simp
  qed
  then show ?case by blast
qed

lemma newWord_by_ending_walks:
  assumes "wf_model m" and "isTrained m"
    and "0 \<le> mn" and "mn < 2 ^ 31" and "0 \<le> mx" and "mx < 2 ^ 31"
    and "k < 100" and "\<forall>j \<le> k. \<exists>f. nth_attempt f m rng pos j \<noteq> None"
    and "k = 99 \<or> (\<exists>f w p. nth_attempt f m rng pos k = Some (Inr (w, p))
                       \<and> mn \<le> int (length w) \<and> int (length w) \<le> mx)"
  shows "\<exists>fuel w i pos'.
           (\<forall>d. newWord_count (fuel + d) \<lparr>m_model = m\<rparr> rng mn mx pos = Some (Inr (w, i, pos')))
           \<and> 1 \<le> i \<and> i \<le> k + 1
           \<and> nth_attempt fuel m rng pos (i - 1) = Some (Inr (w, pos'))
           \<and> (i < 100 \<longrightarrow> mn \<le> int (length w) \<and> int (length w) \<le> mx)
           \<and> (mx < mn \<longrightarrow> i = 100)"
proof -
  from assms(8) have "\<forall>j < Suc k. \<exists>f. nth_attempt f m rng pos j \<noteq> None" by (simp add: less_Suc_eq_le)
  from common_fuel[OF this] obtain F where
    F: "\<forall>j \<le> k. nth_attempt F m rng pos j \<noteq> None" by (auto simp: less_Suc_eq_le)
  have "\<exists>G. (\<forall>j \<le> k. nth_attempt G m rng pos j \<noteq> None)
          \<and> (k = 99 \<or> (\<exists>w p. nth_attempt G m rng pos k = Some (Inr (w, p))
                         \<and> mn \<le> int (length w) \<and> int (length w) \<le> mx))"
  proof (cases "k = 99")
    case True
    with F show ?thesis by blast
  next
    case False
    with assms(9) obtain f w p where
      r: "nth_attempt f m rng pos k = Some (Inr (w, p))"
         "mn \<le> int (length w)" "int (length w) \<le> mx" by blast
    have "nth_attempt (f + F) m rng pos j \<noteq> None" if "j \<le> k" for j
    proof -
      from F that obtain x where "nth_attempt F m rng pos j = Some x" by auto
      from nth_attempt_mono[OF this, of f] show ?thesis by (simp add: add.commute)
    qed
    moreover from nth_attempt_mono[OF r(1), of F]
    have "nth_attempt (f + F) m rng pos k = Some (Inr (w, p))" .
    ultimately show ?thesis using r(2,3) by blast
  qed
  then obtain G where
    G: "\<forall>j \<le> k. nth_attempt G m rng pos j \<noteq> None"
       "k = 99 \<or> (\<exists>w p. nth_attempt G m rng pos k = Some (Inr (w, p))
                         \<and> mn \<le> int (length w) \<and> int (length w) \<le> mx)" by blast
  from newWord_by_walks[OF assms(1-7) G] obtain w i pos' where
    r: "newWord_count G \<lparr>m_model = m\<rparr> rng mn mx pos = Some (Inr (w, i, pos'))" and
    p: "1 \<le> i" "i \<le> k + 1" "nth_attempt G m rng pos (i - 1) = Some (Inr (w, pos'))"
       "i < 100 \<longrightarrow> mn \<le> int (length w) \<and> int (length w) \<le> mx" "mx < mn \<longrightarrow> i = 100"
    by blast
  from newWord_count_mono[OF r]
  have "\<forall>d. newWord_count (G + d) \<lparr>m_model = m\<rparr> rng mn mx pos = Some (Inr (w, i, pos'))"
    by blast
  with p show ?thesis by blast
qed

text \<open>
  C7, as amended: on a trained generator with a well-formed model and bounds that are
  lengths (not negative), if the first \<open>k + 1 \<le> 100\<close> walks each reach the boundary
  marker, and the last of them is the 100th or gives a word whose length is within the
  bounds, then \<open>newWord\<close> returns (with enough fuel, and the same with more), without
  an error, after at least one and at most \<open>k + 1\<close> attempts, with the word of its
  last attempt; a return before the 100th attempt has a length within the bounds; and
  with \<open>maxLength < minLength\<close> it returns after exactly 100 attempts.
\<close>

theorem newWord_attempts:
  assumes "wf_model m" and "isTrained m"
    and "0 \<le> mn" and "mn < 2 ^ 31" and "0 \<le> mx" and "mx < 2 ^ 31"
    and "k < 100" and "\<forall>j \<le> k. \<exists>f. nth_attempt f m rng pos j \<noteq> None"
    and "k = 99 \<or> (\<exists>f w p. nth_attempt f m rng pos k = Some (Inr (w, p))
                       \<and> mn \<le> int (length w) \<and> int (length w) \<le> mx)"
  shows "\<exists>fuel w i pos'.
           (\<forall>d. newWord_count (fuel + d) \<lparr>m_model = m\<rparr> rng mn mx pos = Some (Inr (w, i, pos')))
           \<and> 1 \<le> i \<and> i \<le> k + 1
           \<and> nth_attempt fuel m rng pos (i - 1) = Some (Inr (w, pos'))
           \<and> (i < 100 \<longrightarrow> mn \<le> int (length w) \<and> int (length w) \<le> mx)
           \<and> (mx < mn \<longrightarrow> i = 100)"
  using assms by (rule newWord_by_ending_walks)

theorem newWord_attempts_witness:
  "wf_model model_a \<and> isTrained model_a
   \<and> (\<exists>fuel w pos'. newWord_count fuel \<lparr>m_model = model_a\<rparr> rng_zero 2 1 0
         = Some (Inr (w, 100, pos')))
   \<and> (\<exists>fuel w i pos'. newWord_count fuel \<lparr>m_model = model_a\<rparr> rng_zero 1 5 0
         = Some (Inr (w, i, pos')) \<and> i = 1)"
proof -
  have h: "\<forall>j \<le> k. \<exists>f. nth_attempt f model_a rng_zero 0 j \<noteq> None" for k
    using nth_attempt_model_a[of 0] by (metis option.distinct(1))
  have l: "\<exists>f w p. nth_attempt f model_a rng_zero 0 0 = Some (Inr (w, p))
             \<and> 1 \<le> int (length w) \<and> int (length w) \<le> 5"
    using attempt_model_a[of 0] by (intro exI[of _ "Suc 0"]) simp
  from newWord_attempts[where m = model_a and mn = 2 and mx = 1 and k = 99
      and rng = rng_zero and pos = 0, OF wf_model_a isTrained_model_a _ _ _ _ _ h]
  obtain fuel w i pos' where
    "\<forall>d. newWord_count (fuel + d) \<lparr>m_model = model_a\<rparr> rng_zero 2 1 0 = Some (Inr (w, i, pos'))"
    "i = 100" by auto
  then have "newWord_count (fuel + 0) \<lparr>m_model = model_a\<rparr> rng_zero 2 1 0
      = Some (Inr (w, 100, pos'))" by blast
  then have a: "\<exists>fuel w pos'. newWord_count fuel \<lparr>m_model = model_a\<rparr> rng_zero 2 1 0
         = Some (Inr (w, 100, pos'))" by auto
  from newWord_attempts[where m = model_a and mn = 1 and mx = 5 and k = 0
      and rng = rng_zero and pos = 0, OF wf_model_a isTrained_model_a _ _ _ _ _ h] l
  obtain fuel w i pos' where
    "\<forall>d. newWord_count (fuel + d) \<lparr>m_model = model_a\<rparr> rng_zero 1 5 0 = Some (Inr (w, i, pos'))"
    "1 \<le> i" "i \<le> 0 + 1" by auto
  then have "newWord_count (fuel + 0) \<lparr>m_model = model_a\<rparr> rng_zero 1 5 0
      = Some (Inr (w, i, pos')) \<and> i = 1" by (metis le_antisym add_0)
  then have b: "\<exists>fuel w i pos'. newWord_count fuel \<lparr>m_model = model_a\<rparr> rng_zero 1 5 0
         = Some (Inr (w, i, pos')) \<and> i = 1" by blast
  from a b wf_model_a isTrained_model_a show ?thesis by simp
qed

theorem newWord_never_returns_counterexample:
  "isTrained (Model_import 0 loop_snapshot) \<and> wf_model (Model_import 0 loop_snapshot)
   \<and> (\<forall>rng fuel. newWord fuel \<lparr>m_model = Model_import 0 loop_snapshot\<rparr> rng 2 1 0 = None)
   \<and> train [''aa''] 1 0 (Model_default 0) = Inr model_aa
   \<and> (\<forall>fuel. newWord fuel \<lparr>m_model = model_aa\<rparr> rng_high 2 1 0 = None)"
proof -
  have "newWord fuel \<lparr>m_model = Model_import 0 loop_snapshot\<rparr> rng 2 1 0 = None" for rng fuel
    by (simp add: newWord_def newWord_count_def isTrained_loop newWord_loop.simps attempt_loop)
  moreover have "isTrained model_aa" by (simp add: isTrained_def model_aa_def)
  then have "newWord fuel \<lparr>m_model = model_aa\<rparr> rng_high 2 1 0 = None" for fuel
    by (simp add: newWord_def newWord_count_def newWord_loop.simps attempt_model_aa)
  ultimately show ?thesis using isTrained_loop wf_loop train_model_aa by simp
qed

section \<open>What prediction does on a trained model\<close>

lemma length_observed_key: "key \<in> observed_keys k corpus \<Longrightarrow> length key = k"
  by (auto simp: observed_keys_def windows_def pad_def)

lemma generate_short_context:
  assumes "isTrained m" and "length context < nat (m_order m)" and "m_order m < 2 ^ 31"
  shows "generate m rng context pos = Inl OutOfRange"
proof -
  from assms(2) obtain k where k: "nat (m_order m) = Suc k" by (cases "nat (m_order m)") auto
  from assms(3) have "nat (m_order m) < 2 ^ 64" by (simp add: nat_less_iff)
  with k assms(2) have "length context < size_t_sub (length context) (Suc k)"
    by (simp add: size_t_sub_def)
  then show ?thesis using assms(1) k by (simp add: generate_def substr_def)
qed

lemma generate_loop_lower_orders:
  assumes "train corpus ord prior m0 = Inr m"
  shows "k < nat ord \<Longrightarrow> k \<le> length context \<Longrightarrow>
         generate_loop m rng context pos k = Inr (boundary, pos)"
proof (induction k)
  case 0
  show ?case by simp
next
  case (Suc k)
  note t = train_spec[OF assms]
  let ?s = "take (Suc k) (drop (length context - Suc k) context)"
  from Suc.prems have s: "substr context (size_t_sub (length context) (Suc k)) (Suc k) = Inr ?s"
    by (simp add: substr_def size_t_sub_def)
  from Suc.prems t have o: "1 \<le> ord" "nat (ord - 1) < nat ord" by auto
  with t have g: "getModel m (m_order m)
      = Inr (chain_spec corpus prior (m_alphabet m) (Suc (nat (ord - 1))))"
    by (auto simp: getModel_def)
  from Suc.prems have "length ?s = Suc k" by simp
  with Suc.prems o have "?s \<notin> observed_keys (Suc (nat (ord - 1))) corpus"
    using length_observed_key[of ?s "Suc (nat (ord - 1))" corpus] by auto
  then have "chain_spec corpus prior (m_alphabet m) (Suc (nat (ord - 1))) ?s = None"
    by (simp add: chain_spec_def)
  moreover from Suc have "generate_loop m rng context pos k = Inr (boundary, pos)" by simp
  ultimately show ?case using s g by simp
qed

lemma generate_top_order_only:
  assumes "train corpus ord prior m0 = Inr m" and "1 \<le> ord" and "nat ord \<le> length context"
  shows "generate m rng context pos =
     (case (m_models m ! (nat ord - 1)) (drop (length context - nat ord) context) of
        None \<Rightarrow> Inr (boundary, pos)
      | Some chain \<Rightarrow> Inr (m_alphabet m ! selectIndex chain (rng pos), Suc pos))"
proof -
  note t = train_spec[OF assms(1)]
  from assms(2) obtain k where k: "nat ord = Suc k" by (cases "nat ord") auto
  let ?s = "drop (length context - nat ord) context"
  from assms(3) k have s: "substr context (size_t_sub (length context) (Suc k)) (Suc k) = Inr ?s"
    by (simp add: substr_def size_t_sub_def)
  from assms(2) t have g: "getModel m (m_order m) = Inr (m_models m ! (nat ord - 1))"
    by (auto simp: getModel_def nat_diff_distrib)
  from assms(2) t have tr: "isTrained m" by (auto simp: isTrained_def)
  have wf: "wf_model m" by (rule wf_trained[OF assms(1)])
  from k t have "nat ord - 1 < length (m_models m)" by simp
  then have mem: "m_models m ! (nat ord - 1) \<in> set (m_models m)" by (rule nth_mem)
  show ?thesis
  proof (cases "(m_models m ! (nat ord - 1)) ?s")
    case None
    from k assms(3) have "generate_loop m rng context pos k = Inr (boundary, pos)"
      by (intro generate_loop_lower_orders[OF assms(1)]) auto
    with None s g tr t k show ?thesis by (simp add: generate_def)
  next
    case (Some chain)
    with mem wf have "length chain \<le> length (m_alphabet m)" "m_alphabet m \<noteq> []"
      by (auto simp: wf_model_def)
    with selectIndex_bound[of chain "rng pos"]
    have "selectIndex chain (rng pos) < length (m_alphabet m)" by auto
    with Some s g tr t k show ?thesis by (simp add: generate_def Let_def)
  qed
qed

text \<open>
  C1: \<open>generate\<close> looks every key up in the chain of the highest order. After training
  on \<open>["ab"]\<close> with order 2 the context \<open>"ba"\<close> has no entry of order 2, and its last
  character \<open>"a"\<close> has one in the chain of order 1, with all its weight on \<open>b\<close>; the
  chain of order 2 has none for \<open>"a"\<close>, and \<open>generate\<close> returns the boundary marker
  without drawing a random value.
\<close>

theorem generate_ignores_lower_orders:
  "train [''ab''] 2 0 (Model_default 0) = Inr model_ab
   \<and> (m_models model_ab ! 1) ''ba'' = None
   \<and> (m_models model_ab ! 0) ''a'' = Some [0, 0, 1]
   \<and> m_alphabet model_ab ! selectIndex [0, 0, 1] (rng_zero 0) = CHR ''b''
   \<and> (m_models model_ab ! 1) ''a'' = None
   \<and> generate model_ab rng_zero ''ba'' 0 = Inr (CHR ''#'', 0)"
proof -
  have c: "(m_models model_ab ! 1) ''ba'' = None" "(m_models model_ab ! 0) ''a'' = Some [0, 0, 1]"
    "(m_models model_ab ! 1) ''a'' = None"
    by (simp_all add: model_ab_def)
  have s: "m_alphabet model_ab ! selectIndex [0, 0, 1] (rng_zero 0) = CHR ''b''"
    by (simp add: gen_defs model_ab_def)
  have g: "generate model_ab rng_zero ''ba'' 0 = Inr (CHR ''#'', 0)"
    by (simp add: generate_def isTrained_def getModel_def substr_def size_t_sub_def boundary_def
        model_ab_def numeral_2_eq_2)
  from train_model_ab c s g show ?thesis by simp
qed

text \<open>
  C2: a model built from the snapshot of a trained model has an order one below the
  number of chains of the snapshot. For the model trained on \<open>["a"]\<close> with order 1 the
  snapshot has one chain, the rebuilt model has order 0, and on the context \<open>"#"\<close>,
  where the trained model predicts \<open>a\<close>, it returns the boundary marker.
\<close>

theorem import_order_one_less:
  "train [''a''] 1 0 (Model_default 0) = Inr model_a
   \<and> length (models (exportData model_a)) = 1
   \<and> order model_a = 1
   \<and> order (Model_import 0 (exportData model_a)) = 0
   \<and> m_alphabet (Model_import 0 (exportData model_a)) = m_alphabet model_a
   \<and> m_models (Model_import 0 (exportData model_a)) = m_models model_a
   \<and> generate model_a rng_zero ''#'' 0 = Inr (CHR ''a'', 1)
   \<and> generate (Model_import 0 (exportData model_a)) rng_zero ''#'' 0 = Inr (CHR ''#'', 0)"
  by (simp add: train_model_a)
     (simp add: gen_defs Model_import_def exportData_def model_a_def size_t_to_int_def)

text \<open>
  C3: for a context shorter than the order tried, \<open>context.size() - i\<close> wraps around
  and \<open>substr\<close> throws: on the model trained on \<open>["a"]\<close> with order 1, \<open>generate\<close>
  of the empty context ends in \<open>std::out_of_range\<close>.
\<close>

theorem generate_short_context_throws:
  "train [''a''] 1 0 (Model_default 0) = Inr model_a
   \<and> generate model_a rng_zero [] 0 = Inl OutOfRange"
  by (simp add: train_model_a) (simp add: gen_defs model_a_def)

section \<open>What weighted sampling does\<close>

lemma sum_loop_fst: "fst (sum_loop acc totals chain) = acc + sum_list chain"
  by (induction chain arbitrary: acc totals) (auto simp: add.assoc)

lemma sum_loop_snd:
  "snd (sum_loop acc totals chain)
     = totals @ map (\<lambda>i. acc + sum_list (take (Suc i) chain)) [0 ..< length chain]"
proof (induction chain arbitrary: acc totals)
  case Nil
  show ?case by simp
next
  case (Cons w chain)
  have "map (\<lambda>i. acc + sum_list (take (Suc i) (w # chain))) [0 ..< length (w # chain)]
      = (acc + w) # map (\<lambda>i. acc + w + sum_list (take (Suc i) chain)) [0 ..< length chain]"
    by (simp add: upt_conv_Cons map_Suc_upt[symmetric] add.assoc del: upt_Suc)
  then show ?case by (simp add: Cons.IH del: upt_Suc)
qed

lemma find_loop_found:
  "i \<le> j \<Longrightarrow> j < length totals \<Longrightarrow> random < totals ! j \<Longrightarrow>
   \<forall>l. i \<le> l \<and> l < j \<longrightarrow> \<not> random < totals ! l \<Longrightarrow> find_loop random totals i = j"
proof (induction random totals i rule: find_loop.induct)
  case (1 random totals i)
  show ?case
  proof (cases "i = j")
    case True
    with "1.prems" show ?thesis by (subst find_loop.simps) simp
  next
    case False
    with "1.prems" have l: "i < length totals" "\<not> random < totals ! i" "i + 1 \<le> j" by auto
    from "1.prems" have "\<forall>l. i + 1 \<le> l \<and> l < j \<longrightarrow> \<not> random < totals ! l" by auto
    from "1.IH"[OF l(1,2,3) "1.prems"(2,3) this] l show ?thesis
      by (subst find_loop.simps) simp
  qed
qed

lemma find_loop_none:
  "\<forall>l. i \<le> l \<and> l < length totals \<longrightarrow> \<not> random < totals ! l \<Longrightarrow> find_loop random totals i = 0"
proof (induction random totals i rule: find_loop.induct)
  case (1 random totals i)
  show ?case
  proof (cases "i < length totals")
    case False
    then show ?thesis by (subst find_loop.simps) simp
  next
    case True
    with "1.prems" have n: "\<not> random < totals ! i" by auto
    from "1.prems" have "\<forall>l. i + 1 \<le> l \<and> l < length totals \<longrightarrow> \<not> random < totals ! l" by auto
    from "1.IH"[OF True n this] True n show ?thesis by (subst find_loop.simps) simp
  qed
qed

lemma selectIndex_eq:
  "selectIndex chain r
     = find_loop (real r / real RAND_MAX * sum_list chain)
         (map (\<lambda>i. sum_list (take (Suc i) chain)) [0 ..< length chain]) 0"
proof -
  obtain acc totals where s: "sum_loop 0 [] chain = (acc, totals)" by (cases "sum_loop 0 [] chain")
  with sum_loop_fst[of 0 "[]" chain] sum_loop_snd[of 0 "[]" chain] show ?thesis
    by (simp add: selectIndex_def)
qed

lemma partial_sum_le:
  "\<forall>w \<in> set chain. 0 \<le> w \<Longrightarrow> sum_list (take n chain) \<le> sum_list (chain :: real list)"
proof -
  assume a: "\<forall>w \<in> set chain. 0 \<le> w"
  have "sum_list chain = sum_list (take n chain) + sum_list (drop n chain)"
    by (metis append_take_drop_id sum_list_append)
  moreover have "0 \<le> sum_list (drop n chain)"
    using a by (intro sum_list_nonneg) (auto dest: in_set_dropD)
  ultimately show ?thesis by simp
qed

lemma selectIndex_total_drawn:
  assumes "\<forall>w \<in> set chain. 0 \<le> w"
  shows "selectIndex chain RAND_MAX = 0"
proof -
  have e: "real RAND_MAX / real RAND_MAX * sum_list chain = sum_list chain"
    by (simp add: RAND_MAX_def)
  have "find_loop (sum_list chain)
      (map (\<lambda>i. sum_list (take (Suc i) chain)) [0 ..< length chain]) 0 = 0"
    by (rule find_loop_none) (auto simp: not_less partial_sum_le[OF assms] simp del: upt_Suc)
  then show ?thesis by (simp only: selectIndex_eq e)
qed

lemma selectIndex_zero_total:
  assumes "\<forall>w \<in> set chain. 0 \<le> w" and "sum_list chain = 0"
  shows "selectIndex chain r = 0"
proof -
  have "find_loop 0 (map (\<lambda>i. sum_list (take (Suc i) chain)) [0 ..< length chain]) 0 = 0"
    using partial_sum_le[OF assms(1)] assms(2)
    by (intro find_loop_none) (auto simp: not_less simp del: upt_Suc)
  then show ?thesis by (simp add: selectIndex_eq assms(2) del: upt_Suc)
qed

lemma selectIndex_least:
  assumes "\<forall>w \<in> set chain. 0 \<le> w" and "0 < sum_list chain" and "r < RAND_MAX"
  defines "draw \<equiv> real r / real RAND_MAX * sum_list chain"
  shows "0 \<le> draw \<and> draw < sum_list chain
       \<and> selectIndex chain r < length chain
       \<and> draw < sum_list (take (Suc (selectIndex chain r)) chain)
       \<and> (\<forall>l < selectIndex chain r. \<not> draw < sum_list (take (Suc l) chain))"
proof -
  let ?totals = "map (\<lambda>i. sum_list (take (Suc i) chain)) [0 ..< length chain]"
  from assms(3) have "real r / real RAND_MAX < 1" by (simp add: RAND_MAX_def)
  with assms(2) have "real r / real RAND_MAX * sum_list chain < 1 * sum_list chain"
    by (intro mult_strict_right_mono)
  then have d: "draw < sum_list chain" by (simp only: draw_def mult_1)
  have d0: "0 \<le> draw" using assms(2) by (simp add: draw_def)
  from assms(2) have ne: "chain \<noteq> []" by auto
  let ?P = "\<lambda>j. j < length chain \<and> draw < sum_list (take (Suc j) chain)"
  from ne d have "?P (length chain - 1)" by simp
  then have ex: "\<exists>j. ?P j" by blast
  define j where "j = (LEAST j. ?P j)"
  from ex have pj: "?P j" unfolding j_def by (rule LeastI_ex)
  have mn: "\<not> ?P l" if "l < j" for l using that not_less_Least unfolding j_def by blast
  have "find_loop draw ?totals 0 = j"
  proof (rule find_loop_found)
    show "0 \<le> j" by simp
    show "j < length ?totals" using pj by simp
    show "draw < ?totals ! j" using pj by simp
    show "\<forall>l. 0 \<le> l \<and> l < j \<longrightarrow> \<not> draw < ?totals ! l"
    proof (intro allI impI)
      fix l assume l: "0 \<le> l \<and> l < j"
      with pj have ll: "l < length chain" by simp
      from l mn[of l] ll have "\<not> draw < sum_list (take (Suc l) chain)" by simp
      with ll show "\<not> draw < ?totals ! l" by simp
    qed
  qed
  then have "selectIndex chain r = j" by (simp add: selectIndex_eq draw_def del: upt_Suc)
  with pj mn d d0 show ?thesis
    by (metis less_trans)
qed

text \<open>
  C4: \<open>rand()\<close> may return \<open>RAND_MAX\<close>, and then the draw is the total itself, not a
  value below it: no cumulative sum exceeds the draw and \<open>selectIndex\<close> returns index
  0. On the weights \<open>[0, 1]\<close> that is the index of weight zero.
\<close>

theorem selectIndex_draw_equals_total:
  "sum_loop 0 [] [0, 1] = (1, [0, 1])
   \<and> real RAND_MAX / real RAND_MAX * fst (sum_loop 0 [] [0, 1]) = 1
   \<and> selectIndex [0, 1] RAND_MAX = 0
   \<and> selectIndex [0, 1] (RAND_MAX - 1) = 1"
  by (simp add: gen_defs)

section \<open>Words of a corpus without empty words\<close>

lemma seed_observed:
  assumes "corpus \<noteq> []"
  shows "replicate k boundary \<in> observed_keys k corpus"
proof -
  from assms obtain w where w: "w \<in> set corpus" by (cases corpus) auto
  have "take k (drop 0 (pad k w)) = replicate k boundary" by (simp add: pad_def)
  moreover have "(0::nat) \<in> set [0 ..< Suc (length w)]" by simp
  ultimately have "replicate k boundary \<in> set (windows k w)"
    unfolding windows_def by (metis (no_types, lifting) image_eqI set_map)
  with w show ?thesis by (auto simp: observed_keys_def)
qed

lemma first_letter_follows_seed:
  assumes "w \<noteq> []"
  shows "1 \<le> occurrences k (replicate k boundary) (hd w) w"
proof -
  let ?P = "\<lambda>i. take k (drop i (pad k w)) = replicate k boundary \<and> pad k w ! (i + k) = hd w"
  from assms have "pad k w ! k = hd w"
    by (cases w) (simp_all add: pad_def nth_append)
  then have "?P 0" by (simp add: pad_def)
  then have "0 \<in> set (filter ?P [0 ..< Suc (length w)])" by (simp del: upt_Suc)
  then have "filter ?P [0 ..< Suc (length w)] \<noteq> []" by (metis empty_iff set_empty)
  then show ?thesis by (simp add: occurrences_def Suc_le_eq del: upt_Suc)
qed

lemma no_boundary_after_seed:
  assumes "w \<noteq> []" and "boundary \<notin> set w" and "1 \<le> k"
  shows "occurrences k (replicate k boundary) boundary w = 0"
proof -
  have "\<not> (take k (drop i (pad k w)) = replicate k boundary \<and> pad k w ! (i + k) = boundary)"
    if i: "i < Suc (length w)" for i
  proof
    assume a: "take k (drop i (pad k w)) = replicate k boundary \<and> pad k w ! (i + k) = boundary"
    have f: "pad k w ! (i + k) = (w @ [boundary]) ! i" by (simp add: pad_def nth_append)
    have "i = length w"
    proof (rule ccontr)
      assume "i \<noteq> length w"
      with i have "i < length w" by simp
      with f have "pad k w ! (i + k) \<in> set w" by (simp add: nth_append)
      with a assms(2) show False by simp
    qed
    from assms(1,3) have l: "length w + (k - 1) = k + (length w - 1)" by (cases w) auto
    have lp: "length (pad k w) = k + length w + 1" by (simp add: pad_def)
    from assms(3) have "take k (drop (length w) (pad k w)) ! (k - 1) = drop (length w) (pad k w) ! (k - 1)"
      by (intro nth_take) simp
    also have "\<dots> = pad k w ! (length w + (k - 1))"
      by (intro nth_drop) (simp add: lp)
    finally have "take k (drop (length w) (pad k w)) ! (k - 1) = pad k w ! (length w + (k - 1))" .
    also have "\<dots> = (w @ [boundary]) ! (length w - 1)"
      unfolding l by (simp add: pad_def nth_append)
    also from assms(1) have "\<dots> = w ! (length w - 1)" by (simp add: nth_append)
    also from assms(1) have "\<dots> \<in> set w" by simp
    finally have "take k (drop (length w) (pad k w)) ! (k - 1) \<in> set w" .
    moreover from a \<open>i = length w\<close> assms(3)
    have "take k (drop (length w) (pad k w)) ! (k - 1) = boundary" by simp
    ultimately show False using assms(2) by simp
  qed
  then show ?thesis by (simp add: occurrences_def filter_empty_conv del: upt_Suc)
qed

lemma no_boundary_follows_seed:
  assumes "\<forall>w \<in> set corpus. w \<noteq> [] \<and> boundary \<notin> set w" and "1 \<le> k"
  shows "follow_count corpus k (replicate k boundary) boundary = 0"
  using assms by (simp add: follow_count_def no_boundary_after_seed)

lemma first_letter_counted:
  assumes "w \<in> set corpus" and "w \<noteq> []"
  shows "1 \<le> follow_count corpus k (replicate k boundary) (hd w)"
proof -
  from assms(1) have "occurrences k (replicate k boundary) (hd w) w
      \<in> set (map (occurrences k (replicate k boundary) (hd w)) corpus)" by simp
  then have "occurrences k (replicate k boundary) (hd w) w
      \<le> follow_count corpus k (replicate k boundary) (hd w)"
    unfolding follow_count_def by (rule member_le_sum_list) auto
  with first_letter_follows_seed[OF assms(2), of k] show ?thesis by linarith
qed

lemma selectIndex_positive_weight:
  assumes "\<forall>w \<in> set chain. 0 \<le> w" and "0 < sum_list chain" and "r < RAND_MAX"
  shows "selectIndex chain r < length chain \<and> 0 < chain ! selectIndex chain r"
proof -
  let ?j = "selectIndex chain r"
  let ?d = "real r / real RAND_MAX * sum_list chain"
  from selectIndex_least[OF assms] have
    d: "0 \<le> ?d" and j: "?j < length chain" and
    u: "?d < sum_list (take (Suc ?j) chain)" and
    l: "\<forall>l < ?j. \<not> ?d < sum_list (take (Suc l) chain)"
    by auto
  have s: "sum_list (take (Suc ?j) chain) = sum_list (take ?j chain) + chain ! ?j"
    using j by (simp add: take_Suc_conv_app_nth)
  have "sum_list (take ?j chain) \<le> ?d"
  proof (cases ?j)
    case 0
    with d show ?thesis by simp
  next
    case (Suc l)
    with l have "\<not> ?d < sum_list (take (Suc l) chain)" by simp
    with Suc show ?thesis by simp
  qed
  with u s have "0 < chain ! ?j" by linarith
  with j show ?thesis by simp
qed

lemma first_letter_not_boundary:
  assumes "train corpus ord 0 m0 = Inr m" and "1 \<le> ord"
    and "corpus \<noteq> []" and "\<forall>w \<in> set corpus. w \<noteq> [] \<and> boundary \<notin> set w"
    and "rng pos < RAND_MAX"
  shows "\<exists>c. generate m rng (replicate (nat ord) boundary) pos = Inr (c, Suc pos) \<and> c \<noteq> boundary"
proof -
  note t = train_spec[OF assms(1)]
  let ?k = "nat ord"
  let ?seed = "replicate ?k boundary"
  let ?chain = "map (\<lambda>c. 0 + real (follow_count corpus ?k ?seed c)) (m_alphabet m)"
  from assms(2) have k: "1 \<le> ?k" "?k - 1 < ?k" "Suc (?k - 1) = ?k" by auto
  from t have "\<forall>j < ?k. m_models m ! j = chain_spec corpus 0 (m_alphabet m) (Suc j)" by simp
  with k(2) have "m_models m ! (?k - 1) = chain_spec corpus 0 (m_alphabet m) (Suc (?k - 1))"
    by blast
  then have "m_models m ! (?k - 1) = chain_spec corpus 0 (m_alphabet m) ?k"
    by (simp only: k(3))
  with seed_observed[OF assms(3), of ?k] have c: "(m_models m ! (?k - 1)) ?seed = Some ?chain"
    by (simp add: chain_spec_def)
  have g: "generate m rng ?seed pos
      = Inr (m_alphabet m ! selectIndex ?chain (rng pos), Suc pos)"
    using generate_top_order_only[OF assms(1,2), of ?seed rng pos] c by simp
  have nn: "\<forall>w \<in> set ?chain. 0 \<le> w" by auto
  from assms(3) obtain w where w: "w \<in> set corpus" by (cases corpus) auto
  with assms(4) have wn: "w \<noteq> []" by simp
  with w t have "hd w \<in> set (m_alphabet m)"
    by (auto simp: generateAlphabet_def set_scan_corpus intro!: bexI[of _ w])
  then have "real (follow_count corpus ?k ?seed (hd w)) \<in> set ?chain" by auto
  then have "real (follow_count corpus ?k ?seed (hd w)) \<le> sum_list ?chain"
    using nn by (intro member_le_sum_list) auto
  moreover from first_letter_counted[OF w wn, of ?k]
  have "1 \<le> real (follow_count corpus ?k ?seed (hd w))" by simp
  ultimately have pos: "0 < sum_list ?chain" by linarith
  from selectIndex_positive_weight[OF nn pos assms(5)]
  have j: "selectIndex ?chain (rng pos) < length (m_alphabet m)"
    and p: "0 < ?chain ! selectIndex ?chain (rng pos)" by auto
  from j p have "0 < follow_count corpus ?k ?seed (m_alphabet m ! selectIndex ?chain (rng pos))"
    by simp
  with no_boundary_follows_seed[OF assms(4) k(1)]
  have "m_alphabet m ! selectIndex ?chain (rng pos) \<noteq> boundary" by auto
  with g show ?thesis by simp
qed

lemma extend_keeps:
  "extend fuel m rng word letter pos = Some (Inr (w, pos')) \<Longrightarrow>
   set word \<subseteq> set w \<and> (letter \<noteq> boundary \<longrightarrow> letter \<in> set w)"
proof (induction fuel arbitrary: word letter pos)
  case 0
  then show ?case by (auto split: if_splits)
next
  case (Suc fuel)
  show ?case
  proof (cases "letter = boundary")
    case True
    with Suc.prems show ?thesis by auto
  next
    case False
    with Suc.prems obtain l p where
      e: "extend fuel m rng (word @ [letter]) l p = Some (Inr (w, pos'))"
      by (auto split: sum.splits)
    from Suc.IH[OF e] show ?thesis by auto
  qed
qed

section \<open>The words of newWords, walk by walk\<close>

lemma seed_hit:
  assumes "train corpus ord prior m0 = Inr m" and "1 \<le> ord" and "corpus \<noteq> []"
  shows "\<exists>c. generate m rng (replicate (nat ord) boundary) pos = Inr (c, Suc pos)"
proof -
  note t = train_spec[OF assms(1)]
  let ?k = "nat ord"
  let ?seed = "replicate ?k boundary"
  from assms(2) have k: "?k - 1 < ?k" "Suc (?k - 1) = ?k" by auto
  from t have "\<forall>j < ?k. m_models m ! j = chain_spec corpus prior (m_alphabet m) (Suc j)" by simp
  with k(1) have "m_models m ! (?k - 1) = chain_spec corpus prior (m_alphabet m) (Suc (?k - 1))"
    by blast
  then have "m_models m ! (?k - 1) = chain_spec corpus prior (m_alphabet m) ?k"
    by (simp only: k(2))
  with seed_observed[OF assms(3), of ?k] have "\<exists>chain. (m_models m ! (?k - 1)) ?seed = Some chain"
    by (simp add: chain_spec_def)
  then show ?thesis
    using generate_top_order_only[OF assms(1,2), of ?seed rng pos] by auto
qed

lemma attempt_draws:
  assumes "train corpus ord prior m0 = Inr m" and "1 \<le> ord" and "corpus \<noteq> []"
    and "attempt fuel m rng pos = Some (Inr (w, pos'))"
  shows "pos < pos'"
proof -
  note t = train_spec[OF assms(1)]
  let ?seed = "replicate (nat ord) boundary"
  from seed_hit[OF assms(1-3), of rng pos] obtain c where
    g: "generate m rng ?seed pos = Inr (c, Suc pos)" by auto
  from assms(4) g t obtain w' where
    e: "extend fuel m rng ?seed c (Suc pos) = Some (Inr (w', pos'))"
    by (auto simp: attempt_def order_def Let_def split: if_splits option.splits sum.splits)
  from extend_pos[OF e] show ?thesis by simp
qed

lemma attempt_nonempty_at:
  assumes "train corpus ord 0 m0 = Inr m" and "1 \<le> ord"
    and "corpus \<noteq> []" and "\<forall>w \<in> set corpus. w \<noteq> [] \<and> boundary \<notin> set w"
    and "rng pos < RAND_MAX"
    and "attempt fuel m rng pos = Some (Inr (w, pos'))"
  shows "w \<noteq> []"
proof -
  note t = train_spec[OF assms(1)]
  let ?seed = "replicate (nat ord) boundary"
  from first_letter_not_boundary[where rng = rng and pos = pos, OF assms(1-5)] obtain c where
    g: "generate m rng ?seed pos = Inr (c, Suc pos)" and c: "c \<noteq> boundary" by auto
  from assms(6) g t obtain w' where
    e: "extend fuel m rng ?seed c (Suc pos) = Some (Inr (w', pos'))" and
    w: "w = filter (\<lambda>c. c \<noteq> boundary) w'"
    by (auto simp: attempt_def order_def Let_def split: if_splits option.splits sum.splits)
  from extend_keeps[OF e] c have "c \<in> set w'" by simp
  with c w have "c \<in> set w" by simp
  then show ?thesis by auto
qed

lemma newWord_from:
  assumes "newWord fuel \<lparr>m_model = m\<rparr> rng mn mx pos = Some (Inr (w, pos'))" and "isTrained m"
  shows "\<exists>p. pos \<le> p \<and> p \<le> pos' \<and> attempt fuel m rng p = Some (Inr (w, pos'))"
proof -
  from assms obtain j where
    "newWord_loop fuel m rng mn mx 0 pos = Some (Inr (w, j, pos'))"
    by (auto simp: newWord_def newWord_count_def split: option.splits sum.splits)
  then show ?thesis by (rule newWord_loop_from)
qed

lemma newWord_no_error:
  assumes "wf_model m"
  shows "newWord fuel \<lparr>m_model = m\<rparr> rng mn mx pos \<noteq> Some (Inl e)"
  using newWord_loop_no_error[OF assms, of fuel rng mn mx 0 pos]
  by (auto simp: newWord_def newWord_count_def split: option.splits sum.splits)

lemma newWords_loop_words:
  assumes "wf_model m" and "isTrained m"
  shows "newWords_loop rounds fuel \<lparr>m_model = m\<rparr> rng n mn mx True ws pos \<noteq> None \<Longrightarrow>
         length ws \<le> n \<Longrightarrow>
         \<exists>ws' pos'. newWords_loop rounds fuel \<lparr>m_model = m\<rparr> rng n mn mx True ws pos
                       = Some (Inr (ws', pos'))
           \<and> length ws' = n \<and> pos \<le> pos'
           \<and> (\<forall>w \<in> set ws'. w \<in> set ws
                 \<or> (\<exists>p p'. pos \<le> p \<and> p' \<le> pos' \<and> attempt fuel m rng p = Some (Inr (w, p'))))"
proof (induction rounds arbitrary: ws pos)
  case 0
  then show ?case by (auto split: if_splits)
next
  case (Suc rounds)
  show ?case
  proof (cases "length ws < n")
    case False
    with Suc.prems show ?thesis by auto
  next
    case True
    with Suc.prems(1) newWord_no_error[OF assms(1), of fuel rng mn mx pos] obtain w p1 where
      nw: "newWord fuel \<lparr>m_model = m\<rparr> rng mn mx pos = Some (Inr (w, p1))"
      by (cases "newWord fuel \<lparr>m_model = m\<rparr> rng mn mx pos") (auto split: sum.splits)
    from newWord_from[OF nw assms(2)] obtain p where
      p: "pos \<le> p" "p \<le> p1" "attempt fuel m rng p = Some (Inr (w, p1))" by blast
    from True nw Suc.prems(1)
    have r: "newWords_loop rounds fuel \<lparr>m_model = m\<rparr> rng n mn mx True (ws @ [w]) p1 \<noteq> None"
      by simp
    from True have l: "length (ws @ [w]) \<le> n" by simp
    from Suc.IH[OF r l] obtain ws' pos' where
      e: "newWords_loop rounds fuel \<lparr>m_model = m\<rparr> rng n mn mx True (ws @ [w]) p1
            = Some (Inr (ws', pos'))" and
      f: "length ws' = n" "p1 \<le> pos'" and
      s: "\<forall>v \<in> set ws'. v \<in> set (ws @ [w])
            \<or> (\<exists>q q'. p1 \<le> q \<and> q' \<le> pos' \<and> attempt fuel m rng q = Some (Inr (v, q')))"
      by blast
    have "\<forall>v \<in> set ws'. v \<in> set ws
            \<or> (\<exists>q q'. pos \<le> q \<and> q' \<le> pos' \<and> attempt fuel m rng q = Some (Inr (v, q')))"
    proof
      fix v assume "v \<in> set ws'"
      with s have "v \<in> set (ws @ [w])
            \<or> (\<exists>q q'. p1 \<le> q \<and> q' \<le> pos' \<and> attempt fuel m rng q = Some (Inr (v, q')))"
        by blast
      then show "v \<in> set ws
            \<or> (\<exists>q q'. pos \<le> q \<and> q' \<le> pos' \<and> attempt fuel m rng q = Some (Inr (v, q')))"
      proof
        assume "v \<in> set (ws @ [w])"
        then have "v \<in> set ws \<or> v = w" by auto
        with p f(2) show ?thesis by blast
      next
        assume "\<exists>q q'. p1 \<le> q \<and> q' \<le> pos' \<and> attempt fuel m rng q = Some (Inr (v, q'))"
        then obtain q q' where "p1 \<le> q" "q' \<le> pos'" "attempt fuel m rng q = Some (Inr (v, q'))"
          by blast
        moreover from p have "pos \<le> p1" by simp
        ultimately have "pos \<le> q \<and> q' \<le> pos' \<and> attempt fuel m rng q = Some (Inr (v, q'))"
          by simp
        then show ?thesis by blast
      qed
    qed
    moreover from p f have "pos \<le> pos'" by simp
    ultimately show ?thesis using True nw e f by simp
  qed
qed

lemma newWords_loop_none:
  assumes "wf_model m" and "isTrained m"
  shows "newWords_loop rounds fuel \<lparr>m_model = m\<rparr> rng n mn mx True ws pos = None \<Longrightarrow>
         n - length ws \<le> rounds \<Longrightarrow> \<exists>p. pos \<le> p \<and> attempt fuel m rng p = None"
proof (induction rounds arbitrary: ws pos)
  case 0
  then show ?case by (auto split: if_splits)
next
  case (Suc rounds)
  from Suc.prems(1) have lt: "length ws < n" by (auto split: if_splits)
  show ?case
  proof (cases "newWord fuel \<lparr>m_model = m\<rparr> rng mn mx pos")
    case None
    with assms(2) have "newWord_loop fuel m rng mn mx 0 pos = None"
      by (auto simp: newWord_def newWord_count_def split: option.splits sum.splits)
    then show ?thesis using assms(1) by (rule newWord_loop_none)
  next
    case (Some r)
    with newWord_no_error[OF assms(1), of fuel rng mn mx pos] obtain w p1 where
      nw: "newWord fuel \<lparr>m_model = m\<rparr> rng mn mx pos = Some (Inr (w, p1))"
      by (cases r) auto
    from newWord_from[OF nw assms(2)] have le: "pos \<le> p1" by auto
    from lt nw Suc.prems(1)
    have r: "newWords_loop rounds fuel \<lparr>m_model = m\<rparr> rng n mn mx True (ws @ [w]) p1 = None"
      by simp
    from Suc.prems(2) lt have "n - length (ws @ [w]) \<le> rounds" by simp
    from Suc.IH[OF r this] le show ?thesis by (meson le_trans)
  qed
qed

lemma newWords_walk_runs_out:
  assumes "wf_model m" and "isTrained m" and "n \<le> max_size" and "n \<le> rounds"
    and "newWords rounds fuel \<lparr>m_model = m\<rparr> rng n mn mx True pos = None"
  shows "\<exists>p. pos \<le> p \<and> attempt fuel m rng p = None"
proof -
  from assms(2,3,5) have "newWords_loop rounds fuel \<lparr>m_model = m\<rparr> rng n mn mx True [] pos = None"
    by (simp add: newWords_def split: if_splits)
  from newWords_loop_none[OF assms(1,2) this] assms(4) show ?thesis by simp
qed

lemma newWords_returns:
  assumes "wf_model m" and "isTrained m" and "n \<le> max_size" and "n \<le> rounds"
    and "\<forall>p. pos \<le> p \<longrightarrow> attempt fuel m rng p \<noteq> None"
  shows "newWords rounds fuel \<lparr>m_model = m\<rparr> rng n mn mx True pos \<noteq> None"
  using newWords_walk_runs_out[OF assms(1-4)] assms(5) by blast

lemma newWords_exactly:
  assumes "wf_model m" and "isTrained m" and "n \<le> max_size" and "n \<le> rounds"
    and "newWords rounds fuel \<lparr>m_model = m\<rparr> rng n mn mx True pos \<noteq> None"
  shows "\<exists>ws pos'. newWords rounds fuel \<lparr>m_model = m\<rparr> rng n mn mx True pos = Some (Inr (ws, pos'))
           \<and> length ws = n
           \<and> (train corpus ord 0 m0 = Inr m \<and> corpus \<noteq> []
                \<and> (\<forall>w \<in> set corpus. w \<noteq> [] \<and> boundary \<notin> set w)
                \<and> (\<forall>p. pos \<le> p \<and> p < pos' \<longrightarrow> rng p < RAND_MAX) \<longrightarrow> [] \<notin> set ws)"
proof -
  from assms(2,3) have d: "newWords rounds fuel \<lparr>m_model = m\<rparr> rng n mn mx True pos
      = newWords_loop rounds fuel \<lparr>m_model = m\<rparr> rng n mn mx True [] pos"
    by (simp add: newWords_def)
  with assms(5) have "newWords_loop rounds fuel \<lparr>m_model = m\<rparr> rng n mn mx True [] pos \<noteq> None"
    by simp
  from newWords_loop_words[OF assms(1,2) this] obtain ws pos' where
    r: "newWords_loop rounds fuel \<lparr>m_model = m\<rparr> rng n mn mx True [] pos = Some (Inr (ws, pos'))" and
    l: "length ws = n" and
    s: "\<forall>w \<in> set ws. \<exists>p p'. pos \<le> p \<and> p' \<le> pos' \<and> attempt fuel m rng p = Some (Inr (w, p'))"
    by auto
  have "[] \<notin> set ws"
    if c: "train corpus ord 0 m0 = Inr m \<and> corpus \<noteq> []
          \<and> (\<forall>w \<in> set corpus. w \<noteq> [] \<and> boundary \<notin> set w)
          \<and> (\<forall>p. pos \<le> p \<and> p < pos' \<longrightarrow> rng p < RAND_MAX)"
  proof
    assume "[] \<in> set ws"
    with s obtain p p' where
      a: "pos \<le> p" "p' \<le> pos'" "attempt fuel m rng p = Some (Inr ([], p'))" by blast
    from c have t: "train corpus ord 0 m0 = Inr m" and c3: "corpus \<noteq> []"
      and c4: "\<forall>w \<in> set corpus. w \<noteq> [] \<and> boundary \<notin> set w" by auto
    from train_spec[OF t] have "length (m_models m) = nat ord" by simp
    moreover from assms(2) have "length (m_models m) \<noteq> 0" by (simp add: isTrained_def)
    ultimately have o: "1 \<le> ord" by linarith
    from attempt_draws[OF t o c3 a(3)] a(2) have "p < pos'" by simp
    with c a(1) have "rng p < RAND_MAX" by simp
    from attempt_nonempty_at[OF t o c3 c4 this a(3)] show False by simp
  qed
  with r l d show ?thesis by simp
qed

lemma newWord_model_a:
  "newWord (Suc 0) \<lparr>m_model = model_a\<rparr> rng_zero 1 5 p = Some (Inr (''a'', Suc (Suc p)))"
  by (simp add: newWord_def newWord_count_def isTrained_model_a newWord_loop.simps attempt_model_a
      to_size_t_def)

lemma newWords_reserve_throws:
  "isTrained (m_model g) \<Longrightarrow> max_size < n \<Longrightarrow>
   newWords rounds fuel g rng n mn mx repeat pos = Some (Inl LengthError)"
  by (simp add: newWords_def)

lemma nth_attempt_shift:
  "nth_attempt fuel m rng pos d = Some (Inr (w, p1)) \<Longrightarrow>
   nth_attempt fuel m rng pos (Suc d + j) = nth_attempt fuel m rng p1 j"
proof (induction d arbitrary: pos)
  case 0
  then show ?case by simp
next
  case (Suc d)
  from Suc.prems obtain word p where
    a: "attempt fuel m rng pos = Some (Inr (word, p))"
    by (auto split: option.splits sum.splits)
  with Suc.prems have "nth_attempt fuel m rng p d = Some (Inr (w, p1))" by simp
  from Suc.IH[OF this] a show ?case by simp
qed

lemma newWord_within_100_walks:
  assumes "wf_model m" and "isTrained m"
    and "\<forall>j < 100. nth_attempt fuel m rng pos j \<noteq> None"
  shows "\<exists>w d p1. newWord fuel \<lparr>m_model = m\<rparr> rng mn mx pos = Some (Inr (w, p1))
           \<and> d < 100 \<and> nth_attempt fuel m rng pos d = Some (Inr (w, p1))"
proof -
  have b: "0 + 99 < (100::nat)" by simp
  from assms(3) have e: "\<forall>j \<le> 99. nth_attempt fuel m rng pos j \<noteq> None" by auto
  have l: "0 + 99 = (99::nat) \<or> (\<exists>w p. nth_attempt fuel m rng pos 99 = Some (Inr (w, p))
            \<and> to_size_t mn \<le> length w \<and> length w \<le> to_size_t mx)" by simp
  from newWord_loop_walks[OF assms(1) b e l] obtain w i pos' where
    r: "newWord_loop fuel m rng mn mx 0 pos = Some (Inr (w, i, pos'))" and
    c: "0 < i" "i \<le> 0 + 99 + 1" and
    t: "nth_attempt fuel m rng pos (i - 0 - 1) = Some (Inr (w, pos'))"
    by blast
  from c have "i - 0 - 1 < 100" by simp
  with r t assms(2) show ?thesis
    by (auto simp: newWord_def newWord_count_def)
qed

lemma newWords_loop_within:
  assumes "wf_model m" and "isTrained m"
  shows "n - length ws \<le> rounds \<Longrightarrow>
         \<forall>j < 100 * (n - length ws). nth_attempt fuel m rng pos j \<noteq> None \<Longrightarrow>
         newWords_loop rounds fuel \<lparr>m_model = m\<rparr> rng n mn mx True ws pos \<noteq> None"
proof (induction rounds arbitrary: ws pos)
  case 0
  then show ?case by simp
next
  case (Suc rounds)
  show ?case
  proof (cases "length ws < n")
    case False
    then show ?thesis by simp
  next
    case True
    then have g: "100 \<le> 100 * (n - length ws)" by simp
    with Suc.prems(2) have "\<forall>j < 100. nth_attempt fuel m rng pos j \<noteq> None" by auto
    from newWord_within_100_walks[OF assms this, of mn mx] obtain w d p1 where
      nw: "newWord fuel \<lparr>m_model = m\<rparr> rng mn mx pos = Some (Inr (w, p1))" and
      d: "d < 100" and t: "nth_attempt fuel m rng pos d = Some (Inr (w, p1))"
      by blast
    from True Suc.prems(1) have r: "n - length (ws @ [w]) \<le> rounds" by simp
    have "\<forall>j < 100 * (n - length (ws @ [w])). nth_attempt fuel m rng p1 j \<noteq> None"
    proof (intro allI impI)
      fix j assume j: "j < 100 * (n - length (ws @ [w]))"
      from True have "100 * (n - length ws) = 100 + 100 * (n - length (ws @ [w]))" by simp
      with j d have "Suc d + j < 100 * (n - length ws)" by simp
      with Suc.prems(2) have "nth_attempt fuel m rng pos (Suc d + j) \<noteq> None" by blast
      then show "nth_attempt fuel m rng p1 j \<noteq> None"
        unfolding nth_attempt_shift[OF t] .
    qed
    from Suc.IH[OF r this] True nw show ?thesis by simp
  qed
qed

lemma newWords_within:
  assumes "wf_model m" and "isTrained m" and "n \<le> max_size" and "n \<le> rounds"
    and "\<forall>j < 100 * n. nth_attempt fuel m rng pos j \<noteq> None"
  shows "newWords rounds fuel \<lparr>m_model = m\<rparr> rng n mn mx True pos \<noteq> None"
proof -
  from newWords_loop_within[OF assms(1,2), of n "[]" rounds fuel rng pos mn mx] assms(4,5)
  have "newWords_loop rounds fuel \<lparr>m_model = m\<rparr> rng n mn mx True [] pos \<noteq> None" by simp
  with assms(2,3) show ?thesis by (simp add: newWords_def)
qed

lemma newWords_by_ending_walks:
  assumes "wf_model m" and "isTrained m" and "n \<le> max_size" and "n \<le> rounds"
  shows "((\<forall>j < 100 * n. \<exists>f. nth_attempt f m rng pos j \<noteq> None)
            \<longrightarrow> (\<exists>f. newWords rounds f \<lparr>m_model = m\<rparr> rng n mn mx True pos \<noteq> None))
       \<and> (newWords rounds fuel \<lparr>m_model = m\<rparr> rng n mn mx True pos \<noteq> None \<longrightarrow>
            (\<exists>ws pos'.
               (\<forall>d. newWords rounds (fuel + d) \<lparr>m_model = m\<rparr> rng n mn mx True pos
                      = Some (Inr (ws, pos')))
               \<and> length ws = n
               \<and> (train corpus ord 0 m0 = Inr m \<and> corpus \<noteq> []
                    \<and> (\<forall>w \<in> set corpus. w \<noteq> [] \<and> boundary \<notin> set w)
                    \<and> (\<forall>p. pos \<le> p \<and> p < pos' \<longrightarrow> rng p < RAND_MAX) \<longrightarrow> [] \<notin> set ws)))"
proof (intro conjI impI)
  assume "\<forall>j < 100 * n. \<exists>f. nth_attempt f m rng pos j \<noteq> None"
  from common_fuel[OF this] obtain F where
    "\<forall>j < 100 * n. nth_attempt F m rng pos j \<noteq> None" by blast
  from newWords_within[OF assms this]
  show "\<exists>f. newWords rounds f \<lparr>m_model = m\<rparr> rng n mn mx True pos \<noteq> None" by blast
next
  assume a: "newWords rounds fuel \<lparr>m_model = m\<rparr> rng n mn mx True pos \<noteq> None"
  from newWords_exactly[OF assms a, of corpus ord m0] obtain ws pos' where
    r: "newWords rounds fuel \<lparr>m_model = m\<rparr> rng n mn mx True pos = Some (Inr (ws, pos'))" and
    l: "length ws = n" and
    e: "train corpus ord 0 m0 = Inr m \<and> corpus \<noteq> []
          \<and> (\<forall>w \<in> set corpus. w \<noteq> [] \<and> boundary \<notin> set w)
          \<and> (\<forall>p. pos \<le> p \<and> p < pos' \<longrightarrow> rng p < RAND_MAX) \<longrightarrow> [] \<notin> set ws"
    by blast
  from newWords_mono[OF r]
  have "\<forall>d. newWords rounds (fuel + d) \<lparr>m_model = m\<rparr> rng n mn mx True pos
      = Some (Inr (ws, pos'))" by blast
  with l e show "\<exists>ws pos'.
       (\<forall>d. newWords rounds (fuel + d) \<lparr>m_model = m\<rparr> rng n mn mx True pos = Some (Inr (ws, pos')))
       \<and> length ws = n
       \<and> (train corpus ord 0 m0 = Inr m \<and> corpus \<noteq> []
            \<and> (\<forall>w \<in> set corpus. w \<noteq> [] \<and> boundary \<notin> set w)
            \<and> (\<forall>p. pos \<le> p \<and> p < pos' \<longrightarrow> rng p < RAND_MAX) \<longrightarrow> [] \<notin> set ws)"
    by blast
qed

text \<open>
  C8, as amended: on a trained generator with a well-formed model, for an \<open>n\<close> that
  \<open>reserve\<close> accepts, a call of \<open>newWords\<close> with repeats allowed returns if each
  of the first \<open>100 * n\<close> walks reaches the boundary marker. Whenever no walk of the
  call runs out of fuel (the value of the call is not \<open>None\<close>), it returns, without
  an error and the same with more fuel, a sequence of exactly \<open>n\<close> strings. None of
  them is empty when the generator was trained with prior 0 on a corpus that is not
  empty and has no word that is empty or holds the boundary marker, and no draw of the
  call is \<open>RAND_MAX\<close>.
\<close>

theorem newWords_length:
  assumes "wf_model m" and "isTrained m" and "n \<le> max_size" and "n \<le> rounds"
  shows "((\<forall>j < 100 * n. \<exists>f. nth_attempt f m rng pos j \<noteq> None)
            \<longrightarrow> (\<exists>f. newWords rounds f \<lparr>m_model = m\<rparr> rng n mn mx True pos \<noteq> None))
       \<and> (newWords rounds fuel \<lparr>m_model = m\<rparr> rng n mn mx True pos \<noteq> None \<longrightarrow>
            (\<exists>ws pos'.
               (\<forall>d. newWords rounds (fuel + d) \<lparr>m_model = m\<rparr> rng n mn mx True pos
                      = Some (Inr (ws, pos')))
               \<and> length ws = n
               \<and> (train corpus ord 0 m0 = Inr m \<and> corpus \<noteq> []
                    \<and> (\<forall>w \<in> set corpus. w \<noteq> [] \<and> boundary \<notin> set w)
                    \<and> (\<forall>p. pos \<le> p \<and> p < pos' \<longrightarrow> rng p < RAND_MAX) \<longrightarrow> [] \<notin> set ws)))"
  using assms by (rule newWords_by_ending_walks)

theorem newWords_length_witness:
  "wf_model model_a \<and> isTrained model_a
   \<and> newWords 3 1 \<lparr>m_model = model_a\<rparr> rng_zero 3 1 5 True 0 = Some (Inr ([''a'', ''a'', ''a''], 6))
   \<and> [] \<notin> set [''a'', ''a'', ''a'']"
proof -
  have m: "(3::nat) \<le> max_size" by (simp add: max_size_def)
  have r: "(3::nat) \<le> 3" by simp
  have e: "newWords 3 1 \<lparr>m_model = model_a\<rparr> rng_zero 3 1 5 True 0
      = Some (Inr ([''a'', ''a'', ''a''], 6))"
    using m by (simp add: newWords_def isTrained_model_a numeral_3_eq_3 newWord_model_a)
  have c: "train [''a''] 1 0 (Model_default 0) = Inr model_a \<and> [''a''] \<noteq> []
      \<and> (\<forall>w \<in> set [''a'']. w \<noteq> [] \<and> boundary \<notin> set w)
      \<and> (\<forall>p. 0 \<le> p \<and> p < 6 \<longrightarrow> rng_zero p < RAND_MAX)"
    by (simp add: train_model_a boundary_def rng_zero_def RAND_MAX_def)
  from newWords_length[OF wf_model_a isTrained_model_a m r, where fuel = 1 and rng = rng_zero
      and pos = 0 and mn = 1 and mx = 5 and corpus = "[''a'']" and ord = 1
      and ?m0.0 = "Model_default 0"] e
  obtain ws pos' where
    w: "\<forall>d. newWords 3 (1 + d) \<lparr>m_model = model_a\<rparr> rng_zero 3 1 5 True 0 = Some (Inr (ws, pos'))"
    and x: "train [''a''] 1 0 (Model_default 0) = Inr model_a \<and> [''a''] \<noteq> []
        \<and> (\<forall>w \<in> set [''a'']. w \<noteq> [] \<and> boundary \<notin> set w)
        \<and> (\<forall>p. 0 \<le> p \<and> p < pos' \<longrightarrow> rng_zero p < RAND_MAX) \<longrightarrow> [] \<notin> set ws"
    by auto
  from w have "newWords 3 (1 + 0) \<lparr>m_model = model_a\<rparr> rng_zero 3 1 5 True 0
      = Some (Inr (ws, pos'))" by blast
  with e have "ws = [''a'', ''a'', ''a'']" "pos' = 6" by simp_all
  with x c have "[] \<notin> set [''a'', ''a'', ''a'']" by blast
  with e wf_model_a isTrained_model_a show ?thesis by simp
qed

lemma attempt_model_empty_word:
  "attempt 0 model_empty_word rng p = Some (Inr ([], Suc p))"
proof -
  have "selectIndex [1] r = 0" for r
    using selectIndex_bound[of "[1]" r] by simp
  then show ?thesis
    by (simp add: attempt_def generate_def isTrained_def getModel_def substr_def size_t_sub_def
        order_def boundary_def model_empty_word_def)
qed

lemma newWord_loop_model_empty_word:
  "i < 100 \<Longrightarrow>
   newWord_loop 0 model_empty_word rng 3 8 i p = Some (Inr ([], 100, p + (100 - i)))"
proof (induction "100 - i" arbitrary: i p)
  case 0
  then show ?case by simp
next
  case (Suc d)
  show ?case
  proof (cases "i + 1 < 100")
    case True
    with Suc have "newWord_loop 0 model_empty_word rng 3 8 (i + 1) (Suc p)
        = Some (Inr ([], 100, Suc p + (100 - (i + 1))))"
      by (intro Suc.hyps) auto
    with True show ?thesis
      by (subst newWord_loop.simps) (simp add: attempt_model_empty_word to_size_t_def)
  next
    case False
    with Suc.prems have "i = 99" by simp
    then show ?thesis
      by (subst newWord_loop.simps) (simp add: attempt_model_empty_word to_size_t_def)
  qed
qed

lemma newWord_model_empty_word:
  "newWord 0 \<lparr>m_model = model_empty_word\<rparr> rng 3 8 p = Some (Inr ([], p + 100))"
  by (simp add: newWord_def newWord_count_def newWord_loop_model_empty_word isTrained_def)
     (simp add: model_empty_word_def)

theorem newWords_empty_strings_counterexample:
  "train [''''] 1 0 (Model_default 0) = Inr model_empty_word
   \<and> newWords 5 0 \<lparr>m_model = model_empty_word\<rparr> rng_zero 5 3 8 True 0
       = Some (Inr ([[], [], [], [], []], 500))"
proof -
  have t: "isTrained (m_model \<lparr>m_model = model_empty_word\<rparr>)"
    by (simp add: isTrained_def model_empty_word_def)
  have "newWords_loop 5 0 \<lparr>m_model = model_empty_word\<rparr> rng_zero 5 3 8 True [] 0
       = Some (Inr ([[], [], [], [], []], 500))"
    by (simp add: numeral_eq_Suc newWord_model_empty_word[unfolded numeral_eq_Suc])
  moreover have "\<not> max_size < 5" by (simp add: max_size_def)
  ultimately show ?thesis using t train_model_empty_word by (simp add: newWords_def)
qed

end
